theory Spec2Isabelle
  imports Main "HOL-Library.AList"
begin

section \<open>The flowchart graph\<close>

text \<open>
  Modelled from the spec: the event classes (\<^verbatim>\<open>Event\<close>, \<^verbatim>\<open>ActionEvent\<close>,
  \<^verbatim>\<open>SwitchEvent\<close>, \<^verbatim>\<open>ForkEvent\<close>, \<^verbatim>\<open>JoinEvent\<close>, \<^verbatim>\<open>SubFlowEvent\<close>, \<^verbatim>\<open>RequiredIndex\<close>)
  come from the \<^verbatim>\<open>evfl\<close> package, which is not part of the repository. The data model of
  the spec gives their shape: an event has an identity, a name and a payload; a sequential
  payload (action, join or subflow) holds one optional \<^verbatim>\<open>next\<close> reference, a switch payload
  a mapping from integer discriminants to event references, a fork payload an ordered
  sequence of event references, and other payload kinds exist.

  An event object is identified by a reference; Python compares events by identity
  (\<^verbatim>\<open>==\<close> and \<^verbatim>\<open>is\<close> coincide on them, and they are used as set and dictionary keys).
  The payloads live in a store indexed by references, so that the in-place mutations of
  \<^verbatim>\<open>_applyChanges\<close> are updates of the store.

  A Python \<^verbatim>\<open>dict\<close> is an association list in insertion order; its keys are distinct
  (\<open>dict_ok\<close> below states this for every switch payload of a store).
\<close>

type_synonym ref = nat

datatype seq_kind = Action | Join | SubFlow

datatype event_data =
    Sequential seq_kind "ref option"
  | SwitchEvent "(int \<times> ref) list"
  | ForkEvent "ref list"
  | OtherData

record event =
  name :: string
  data :: event_data

type_synonym heap = "ref \<Rightarrow> event"

definition dict_ok :: "heap \<Rightarrow> bool" where
  "dict_ok h \<longleftrightarrow> (\<forall>e cases. data (h e) = SwitchEvent cases \<longrightarrow> distinct (map fst cases))"

section \<open>Parent links and the table model\<close>

datatype ParentLinkType = Next | SwitchCase | ForkBranch

text \<open>\<^verbatim>\<open>ParentLink.__eq__\<close> compares the three fields, which is the equality of this datatype.\<close>

datatype ParentLink =
  ParentLink (parent: ref) (link_type: ParentLinkType) (detail: "int option")

datatype py_error = IndexError

text \<open>\<^verbatim>\<open>ParentLinkModel.isValid\<close>: the loop carries the set \<^verbatim>\<open>switch_seen\<close>.\<close>

fun isValid_loop :: "(ref \<times> int option) set \<Rightarrow> ParentLink list \<Rightarrow> bool" where
  "isValid_loop switch_seen [] = True"
| "isValid_loop switch_seen (pl # pls) =
     (if link_type pl = SwitchCase then
        (let key = (parent pl, detail pl) in
         if key \<in> switch_seen then False
         else isValid_loop (insert key switch_seen) pls)
      else isValid_loop switch_seen pls)"

definition isValid :: "ParentLink list \<Rightarrow> bool" where
  "isValid l = isValid_loop {} l"

text \<open>
  \<^verbatim>\<open>ParentLinkModel.appendLink\<close> returns its boolean and the list \<^verbatim>\<open>self.l\<close> as it is
  afterwards. The message box of the rejecting branch has no effect on the list.
\<close>

definition appendLink :: "ParentLink \<Rightarrow> ParentLink list \<Rightarrow> bool \<times> ParentLink list" where
  "appendLink link l =
     (if list_ex (\<lambda>existing. link = existing) l then (False, l)
      else (True, l @ [link]))"

text \<open>
  \<^verbatim>\<open>ParentLinkModel.removeRow\<close> is \<^verbatim>\<open>self.l.pop(row)\<close>: a negative row counts from the end
  and a row out of range raises \<^verbatim>\<open>IndexError\<close>.
\<close>

definition removeRow :: "int \<Rightarrow> ParentLink list \<Rightarrow> py_error + (bool \<times> ParentLink list)" where
  "removeRow row l =
     (let n = int (length l); j = (if row < 0 then n + row else row)
      in if 0 \<le> j \<and> j < n then Inr (True, take (nat j) l @ drop (Suc (nat j)) l)
         else Inl IndexError)"

section \<open>Scanning the graph for the parents of the child\<close>

text \<open>
  The body of the loop of \<^verbatim>\<open>_gatherExistingLinks\<close> for one event \<open>e\<close> with payload \<open>d\<close>.
\<close>

fun links_of_event :: "ref \<Rightarrow> ref \<Rightarrow> event_data \<Rightarrow> ParentLink list" where
  "links_of_event child e (Sequential k nxt) =
     (if nxt = Some child then [ParentLink e Next None] else [])"
| "links_of_event child e (SwitchEvent cases) =
     map (\<lambda>(value, c). ParentLink e SwitchCase (Some value))
       (filter (\<lambda>(value, c). c = child) cases)"
| "links_of_event child e (ForkEvent forks) =
     map (\<lambda>fork. ParentLink e ForkBranch None) (filter (\<lambda>fork. fork = child) forks)"
| "links_of_event child e OtherData = []"

text \<open>
  The flowchart is the list \<^verbatim>\<open>flow.flowchart.events\<close>, or \<open>None\<close> when there is no flow or
  no flowchart.
\<close>

definition gatherExistingLinks :: "ref \<Rightarrow> ref list option \<Rightarrow> heap \<Rightarrow> ParentLink list" where
  "gatherExistingLinks child flow h =
     (case flow of
        None \<Rightarrow> []
      | Some events \<Rightarrow> concat (map (\<lambda>e. links_of_event child e (data (h e))) events))"

section \<open>Applying the desired links\<close>

datatype apply_error =
    NoFlowchart
  | ValidationError
  | AssertionError
  | OverwriteDeclined
  | ConflictError ref int

text \<open>
  What \<^verbatim>\<open>_applyChanges\<close> takes from outside the graph: the answer to the question
  ``Overwrite links'' (\<open>True\<close> for Yes) for the listed parents, and the order in which
  Python iterates over a set, which the language leaves open. A set is given by the
  sequence of its insertions; \<open>set_order_ok\<close> says that iterating visits each member once.
\<close>

record env =
  confirm :: "ref list \<Rightarrow> bool"
  set_order_events :: "ref list \<Rightarrow> ref list"
  set_order_ints :: "int list \<Rightarrow> int list"

definition set_order_ok :: "env \<Rightarrow> bool" where
  "set_order_ok env \<longleftrightarrow>
     (\<forall>xs. set (set_order_events env xs) = set xs \<and> distinct (set_order_events env xs)) \<and>
     (\<forall>xs. set (set_order_ints env xs) = set xs \<and> distinct (set_order_ints env xs))"

text \<open>
  The three lookup tables \<^verbatim>\<open>desired_next\<close>, \<^verbatim>\<open>desired_switch\<close> and
  \<^verbatim>\<open>desired_fork_count\<close>; a missing key of the two dictionaries reads as the default the
  code passes to \<^verbatim>\<open>get\<close> (the empty set, and 0). The two sets are kept as the sequence of
  their insertions. The loop that fills the tables raises at a switch-case link without
  detail (the \<^verbatim>\<open>assert\<close>); this happens before any mutation.
\<close>

record desired =
  desired_next :: "ref list"
  desired_switch :: "ref \<Rightarrow> int list"
  desired_fork_count :: "ref \<Rightarrow> nat"

definition no_desired :: desired where
  "no_desired = \<lparr>desired_next = [], desired_switch = (\<lambda>e. []), desired_fork_count = (\<lambda>e. 0)\<rparr>"

fun build_desired :: "ParentLink list \<Rightarrow> desired \<Rightarrow> apply_error + desired" where
  "build_desired [] d = Inr d"
| "build_desired (pl # pls) d =
     (case link_type pl of
        Next \<Rightarrow> build_desired pls (d\<lparr>desired_next := desired_next d @ [parent pl]\<rparr>)
      | SwitchCase \<Rightarrow>
          (case detail pl of
             None \<Rightarrow> Inl AssertionError
           | Some v \<Rightarrow>
               build_desired pls
                 (d\<lparr>desired_switch :=
                      (desired_switch d)(parent pl := desired_switch d (parent pl) @ [v])\<rparr>))
      | ForkBranch \<Rightarrow>
          build_desired pls
            (d\<lparr>desired_fork_count :=
                 (desired_fork_count d)(parent pl := desired_fork_count d (parent pl) + 1)\<rparr>))"

text \<open>
  The parents of the overwrite question: an event object is always true in a condition, so
  \<^verbatim>\<open>data.nxt.v and data.nxt.v is not self.child_event\<close> holds when \<^verbatim>\<open>next\<close> is set and is not
  the child.
\<close>

definition to_overwrite :: "ref \<Rightarrow> heap \<Rightarrow> ref list \<Rightarrow> ref list" where
  "to_overwrite child h parents =
     filter (\<lambda>p. case data (h p) of
                   Sequential k nxt \<Rightarrow> nxt \<noteq> None \<and> nxt \<noteq> Some child
                 | _ \<Rightarrow> False) parents"

text \<open>
  The first loop over a switch event: \<open>keys\<close> is the snapshot \<^verbatim>\<open>list(data.cases.keys())\<close>.
  Each key of the snapshot is still in the dictionary at its turn, since only the key of
  the turn is deleted and the keys of a dictionary are distinct.
\<close>

fun remove_cases :: "ref \<Rightarrow> int list \<Rightarrow> int list \<Rightarrow> (int \<times> ref) list \<Rightarrow> (int \<times> ref) list" where
  "remove_cases child desired_cases [] cases = cases"
| "remove_cases child desired_cases (value # keys) cases =
     remove_cases child desired_cases keys
       (if map_of cases value = Some child \<and> value \<notin> set desired_cases
        then AList.delete value cases else cases)"

text \<open>
  The second loop over a switch event. It stops at the first desired value bound to another
  event and returns that value with the dictionary as it is by then; a new key goes to the
  end of the dictionary.
\<close>

fun add_cases :: "ref \<Rightarrow> int list \<Rightarrow> (int \<times> ref) list \<Rightarrow> int option \<times> (int \<times> ref) list" where
  "add_cases child [] cases = (None, cases)"
| "add_cases child (value # values) cases =
     (case map_of cases value of
        Some t \<Rightarrow> if t \<noteq> child then (Some value, cases) else add_cases child values cases
      | None \<Rightarrow> add_cases child values (cases @ [(value, child)]))"

text \<open>The loop that rebuilds \<^verbatim>\<open>new_forks\<close> when a fork has too many branches to the child.\<close>

fun keep_forks :: "ref \<Rightarrow> nat \<Rightarrow> ref list \<Rightarrow> ref list" where
  "keep_forks child remaining [] = []"
| "keep_forks child remaining (fork # forks) =
     (if fork \<noteq> child then fork # keep_forks child remaining forks
      else if remaining > 0 then fork # keep_forks child (remaining - 1) forks
      else keep_forks child remaining forks)"

text \<open>
  The body of the main loop for the event \<open>e\<close> with payload \<open>dat\<close>: the new payload, and
  whether the loop goes on (\<open>Inr ()\<close>) or returns \<^verbatim>\<open>False\<close> after the conflict message.
\<close>

definition apply_event ::
  "env \<Rightarrow> ref \<Rightarrow> desired \<Rightarrow> ref \<Rightarrow> event_data \<Rightarrow> (apply_error + unit) \<times> event_data" where
  "apply_event env child d e dat =
     (case dat of
        Sequential k nxt \<Rightarrow>
          (Inr (),
           if e \<in> set (desired_next d) then Sequential k (Some child)
           else if nxt = Some child then Sequential k None
           else dat)
      | SwitchEvent cases \<Rightarrow>
          (let desired_cases = desired_switch d e;
               cases1 = remove_cases child desired_cases (map fst cases) cases
           in case add_cases child (set_order_ints env desired_cases) cases1 of
                (Some value, cases2) \<Rightarrow> (Inl (ConflictError e value), SwitchEvent cases2)
              | (None, cases2) \<Rightarrow> (Inr (), SwitchEvent cases2))
      | ForkEvent forks \<Rightarrow>
          (let current = filter (\<lambda>fork. fork = child) forks;
               desired = desired_fork_count d e
           in (Inr (),
               if desired < length current then ForkEvent (keep_forks child desired forks)
               else if desired > length current
                 then ForkEvent (forks @ replicate (desired - length current) child)
               else dat))
      | OtherData \<Rightarrow> (Inr (), dat))"

fun apply_events ::
  "env \<Rightarrow> ref \<Rightarrow> desired \<Rightarrow> ref list \<Rightarrow> heap \<Rightarrow> (apply_error + unit) \<times> heap" where
  "apply_events env child d [] h = (Inr (), h)"
| "apply_events env child d (e # es) h =
     (case apply_event env child d e (data (h e)) of
        (Inl err, dat') \<Rightarrow> (Inl err, h(e := (h e)\<lparr>data := dat'\<rparr>))
      | (Inr u, dat') \<Rightarrow> apply_events env child d es (h(e := (h e)\<lparr>data := dat'\<rparr>)))"

text \<open>
  \<^verbatim>\<open>EditParentsDialog._applyChanges\<close>: \<open>Inr ()\<close> is the return value \<^verbatim>\<open>True\<close>, \<open>Inl err\<close> is
  \<^verbatim>\<open>False\<close> with the reason (the message shown, if any) or the exception of the \<^verbatim>\<open>assert\<close>;
  the second component is the store when the method returns. The question is put to the
  user only when \<^verbatim>\<open>to_overwrite\<close> is not empty, and any answer but Yes declines.
\<close>

definition applyChanges ::
  "env \<Rightarrow> ref \<Rightarrow> ParentLink list \<Rightarrow> ref list option \<Rightarrow> heap \<Rightarrow> (apply_error + unit) \<times> heap" where
  "applyChanges env child l flow h =
     (case flow of
        None \<Rightarrow> (Inl NoFlowchart, h)
      | Some events \<Rightarrow>
          if \<not> isValid l then (Inl ValidationError, h)
          else
            (case build_desired l no_desired of
               Inl err \<Rightarrow> (Inl err, h)
             | Inr d \<Rightarrow>
                 (let ask = to_overwrite child h (set_order_events env (desired_next d))
                  in if ask \<noteq> [] \<and> \<not> confirm env ask then (Inl OverwriteDeclined, h)
                     else apply_events env child d events h)))"

section \<open>Editing the list in the dialog\<close>

text \<open>
  The dialog changes the list through \<open>appendLink\<close> (``Add parent...'') and \<open>removeRow\<close>
  (the context menu), any number of times and in any order. An exception of \<open>removeRow\<close>
  ends the run.
\<close>

datatype model_op = AppendLink ParentLink | RemoveRow int

fun run_ops :: "model_op list \<Rightarrow> ParentLink list \<Rightarrow> py_error + ParentLink list" where
  "run_ops [] l = Inr l"
| "run_ops (AppendLink link # ops) l = run_ops ops (snd (appendLink link l))"
| "run_ops (RemoveRow row # ops) l =
     (case removeRow row l of
        Inl err \<Rightarrow> Inl err
      | Inr (ok, l') \<Rightarrow> run_ops ops l')"

section \<open>Auxiliary notions for the statements\<close>

text \<open>The keys that \<open>isValid\<close> collects: parent and detail of the switch-case links.\<close>

definition switch_keys :: "ParentLink list \<Rightarrow> (ref \<times> int option) list" where
  "switch_keys l =
     map (\<lambda>pl. (parent pl, detail pl)) (filter (\<lambda>pl. link_type pl = SwitchCase) l)"

text \<open>
  The number of ForkBranch links of a parent in a list: what \<^verbatim>\<open>desired_fork_count\<close> holds
  for that parent once \<open>applyChanges\<close> has read the list.
\<close>

definition fork_branch_count :: "ref \<Rightarrow> ParentLink list \<Rightarrow> nat" where
  "fork_branch_count e l = length (filter (\<lambda>pl. link_type pl = ForkBranch \<and> parent pl = e) l)"

text \<open>
  The input contract of the reconciliation. A link fits the payload of its parent the way
  \<^verbatim>\<open>addParent\<close> builds links: a Next link without detail for a sequential event, a
  SwitchCase link with a value for a switch, a ForkBranch link without detail for a fork; a
  list is well typed when every link names an event of the flowchart and fits its payload.
\<close>

fun fits :: "event_data \<Rightarrow> ParentLinkType \<Rightarrow> int option \<Rightarrow> bool" where
  "fits (Sequential k nxt) Next None = True"
| "fits (SwitchEvent cases) SwitchCase (Some v) = True"
| "fits (ForkEvent forks) ForkBranch None = True"
| "fits dat ty det = False"

definition well_typed :: "ref list \<Rightarrow> heap \<Rightarrow> ParentLink list \<Rightarrow> bool" where
  "well_typed events h l \<longleftrightarrow>
     (\<forall>pl\<in>set l. parent pl \<in> set events \<and>
        fits (data (h (parent pl))) (link_type pl) (detail pl))"

text \<open>
  No desired switch case is bound to another event: the value of every desired SwitchCase
  link is either not a case of its switch or a case that targets the child.
\<close>

definition conflict_free :: "ref \<Rightarrow> heap \<Rightarrow> ParentLink list \<Rightarrow> bool" where
  "conflict_free child h l \<longleftrightarrow>
     (\<forall>pl\<in>set l. \<forall>cases v.
        link_type pl = SwitchCase \<and> detail pl = Some v \<and>
        data (h (parent pl)) = SwitchEvent cases \<longrightarrow>
          map_of cases v = None \<or> map_of cases v = Some child)"

text \<open>
  The parents listed in the overwrite question for a desired list: the list \<^verbatim>\<open>to_overwrite\<close>
  as \<open>applyChanges\<close> computes it. The question is asked when it is not empty.
\<close>

definition overwrite_question :: "env \<Rightarrow> ref \<Rightarrow> ParentLink list \<Rightarrow> heap \<Rightarrow> ref list" where
  "overwrite_question env child l h =
     to_overwrite child h
       (set_order_events env (map parent (filter (\<lambda>pl. link_type pl = Next) l)))"

section \<open>An example flowchart\<close>

text \<open>
  The child is event 0. Event 1 is an action whose \<^verbatim>\<open>next\<close> is event 5, event 2 a switch with
  two cases to the child and one to event 5, event 3 a fork with two branches to the child
  and one to event 5, event 4 a join whose \<^verbatim>\<open>next\<close> is the child. The example environment
  gives one fixed answer to the overwrite question and iterates sets in insertion order.
\<close>

definition ex_env :: "bool \<Rightarrow> env" where
  "ex_env answer = \<lparr>confirm = (\<lambda>ask. answer), set_order_events = remdups, set_order_ints = remdups\<rparr>"

definition ex_events :: "ref list" where
  "ex_events = [0, 1, 2, 3, 4, 5]"

definition ex_heap :: heap where
  "ex_heap = (\<lambda>e. \<lparr>name = [], data = OtherData\<rparr>)
     (0 := \<lparr>name = ''Child'', data = Sequential Action None\<rparr>,
      1 := \<lparr>name = ''A'', data = Sequential Action (Some 5)\<rparr>,
      2 := \<lparr>name = ''S'', data = SwitchEvent [(1, 0), (2, 0), (3, 5)]\<rparr>,
      3 := \<lparr>name = ''F'', data = ForkEvent [0, 5, 0]\<rparr>,
      4 := \<lparr>name = ''J'', data = Sequential Join (Some 0)\<rparr>,
      5 := \<lparr>name = ''X'', data = Sequential SubFlow None\<rparr>)"

section \<open>Evaluating the example\<close>

lemmas ex_simps = applyChanges_def isValid_def no_desired_def to_overwrite_def apply_event_def
  ex_env_def ex_events_def ex_heap_def Let_def

lemma set_order_ok_ex: "set_order_ok (ex_env answer)"
  by (simp add: set_order_ok_def ex_env_def)

lemma dict_ok_ex: "dict_ok ex_heap"
  by (simp add: dict_ok_def ex_heap_def)

section \<open>Appending to the list\<close>

text \<open>
  C4. For every list and every candidate link equal (same parent, same link type, same
  detail) to an entry of the list, \<open>appendLink\<close> returns \<open>False\<close> and leaves the list as it
  was: the duplicate is rejected, not merged.
\<close>

theorem appendLink_duplicate_rejected:
  "link \<in> set l \<Longrightarrow> appendLink link l = (False, l)"
  by (auto simp: appendLink_def list_ex_iff)

theorem appendLink_duplicate_rejected_witness:
  "ParentLink 1 ForkBranch None \<in> set [ParentLink 0 Next None, ParentLink 1 ForkBranch None] \<and>
   appendLink (ParentLink 1 ForkBranch None) [ParentLink 0 Next None, ParentLink 1 ForkBranch None]
     = (False, [ParentLink 0 Next None, ParentLink 1 ForkBranch None])"
  using appendLink_duplicate_rejected
    [of "ParentLink 1 ForkBranch None" "[ParentLink 0 Next None, ParentLink 1 ForkBranch None]"]
  by simp

section \<open>Validation\<close>

lemma isValid_loop_iff:
  "isValid_loop seen l \<longleftrightarrow> distinct (switch_keys l) \<and> set (switch_keys l) \<inter> seen = {}"
  by (induction l arbitrary: seen) (auto simp: switch_keys_def Let_def)

lemma isValid_iff: "isValid l \<longleftrightarrow> distinct (switch_keys l)"
  by (simp add: isValid_def isValid_loop_iff)

lemma switch_keys_dup:
  assumes "i < j" "j < length l"
    and "link_type (l ! i) = SwitchCase" "link_type (l ! j) = SwitchCase"
    and "parent (l ! i) = parent (l ! j)" "detail (l ! i) = detail (l ! j)"
  shows "\<not> distinct (switch_keys l)"
proof -
  have eq: "l ! i = l ! j"
    using assms by (simp add: ParentLink.expand)
  have "l = take j l @ l ! j # drop (Suc j) l"
    using assms(2) by (simp add: id_take_nth_drop)
  moreover have "l ! i \<in> set (take j l)"
    using assms(1,2) by (auto simp: in_set_conv_nth intro!: exI[of _ i])
  ultimately obtain xs ys where l: "l = xs @ l ! j # ys" and mem: "l ! j \<in> set xs"
    using eq by metis
  have "switch_keys l = switch_keys xs @ (parent (l ! j), detail (l ! j)) # switch_keys ys"
    by (subst l) (simp add: switch_keys_def assms(4))
  moreover have "(parent (l ! j), detail (l ! j)) \<in> set (switch_keys xs)"
    using mem assms(4) by (auto simp: switch_keys_def)
  ultimately show ?thesis by simp
qed

text \<open>
  C3. If two entries of the desired list, at different rows, are switch-case links with
  the same parent and the same detail, \<open>applyChanges\<close> returns the validation error and the
  store is the one it was given: nothing is mutated.
\<close>

theorem duplicate_switch_case_rejected:
  assumes "i < j" "j < length l"
    and "link_type (l ! i) = SwitchCase" "link_type (l ! j) = SwitchCase"
    and "parent (l ! i) = parent (l ! j)" "detail (l ! i) = detail (l ! j)"
  shows "applyChanges env child l (Some events) h = (Inl ValidationError, h)"
  using switch_keys_dup[OF assms] by (simp add: applyChanges_def isValid_iff)

theorem duplicate_switch_case_rejected_witness:
  "(0::nat) < 1 \<and> 1 < length [ParentLink 2 SwitchCase (Some 7), ParentLink 2 SwitchCase (Some 7)] \<and>
   applyChanges (ex_env True) 0 [ParentLink 2 SwitchCase (Some 7), ParentLink 2 SwitchCase (Some 7)]
     (Some ex_events) ex_heap = (Inl ValidationError, ex_heap)"
  using duplicate_switch_case_rejected
    [of 0 1 "[ParentLink 2 SwitchCase (Some 7), ParentLink 2 SwitchCase (Some 7)]"
       "ex_env True" 0 ex_events ex_heap]
  by simp

section \<open>The lookup tables and the main loop\<close>

lemma build_desired_Inr:
  "build_desired l d = Inr d' \<Longrightarrow>
     desired_next d' = desired_next d @ map parent (filter (\<lambda>pl. link_type pl = Next) l) \<and>
     (\<forall>e. desired_switch d' e =
        desired_switch d e @
          map (\<lambda>pl. the (detail pl)) (filter (\<lambda>pl. link_type pl = SwitchCase \<and> parent pl = e) l)) \<and>
     (\<forall>e. desired_fork_count d' e =
        desired_fork_count d e + length (filter (\<lambda>pl. link_type pl = ForkBranch \<and> parent pl = e) l))"
proof (induction l arbitrary: d)
  case Nil
  then show ?case by simp
next
  case (Cons pl pls)
  show ?case
  proof (cases "link_type pl")
    case Next
    with Cons.prems have "build_desired pls (d\<lparr>desired_next := desired_next d @ [parent pl]\<rparr>) = Inr d'"
      by simp
    from Cons.IH[OF this] Next show ?thesis by simp
  next
    case SwitchCase
    with Cons.prems obtain v where v: "detail pl = Some v"
      and "build_desired pls (d\<lparr>desired_switch :=
             (desired_switch d)(parent pl := desired_switch d (parent pl) @ [v])\<rparr>) = Inr d'"
      by (auto split: option.splits)
    from Cons.IH[OF this(2)] SwitchCase v show ?thesis by simp
  next
    case ForkBranch
    with Cons.prems have "build_desired pls (d\<lparr>desired_fork_count :=
             (desired_fork_count d)(parent pl := desired_fork_count d (parent pl) + 1)\<rparr>) = Inr d'"
      by simp
    from Cons.IH[OF this] ForkBranch show ?thesis by simp
  qed
qed

lemma build_desired_total:
  "\<forall>pl\<in>set l. link_type pl = SwitchCase \<longrightarrow> detail pl \<noteq> None \<Longrightarrow> \<exists>d'. build_desired l d = Inr d'"
  by (induction l arbitrary: d) (auto split: ParentLinkType.splits option.splits)

lemma apply_events_other:
  "x \<notin> set es \<Longrightarrow> snd (apply_events env child d es h) x = h x"
  by (induction es arbitrary: h) (auto split: prod.splits sum.splits)

lemma apply_events_name:
  "name (snd (apply_events env child d es h) x) = name (h x)"
  by (induction es arbitrary: h) (auto split: prod.splits sum.splits)

lemma apply_events_at:
  assumes "apply_events env child d es h = (Inr (), h')" and "x \<in> set es" and "P (data (h x))"
    and idem: "\<And>dat dat'. P dat \<Longrightarrow> apply_event env child d x dat = (Inr (), dat') \<Longrightarrow>
                 P dat' \<and> apply_event env child d x dat' = (Inr (), dat')"
  shows "apply_event env child d x (data (h x)) = (Inr (), data (h' x))"
  using assms(1-3)
proof (induction es arbitrary: h)
  case Nil
  then show ?case by simp
next
  case (Cons e es)
  obtain dat' where step: "apply_event env child d e (data (h e)) = (Inr (), dat')"
    and rest: "apply_events env child d es (h(e := (h e)\<lparr>data := dat'\<rparr>)) = (Inr (), h')"
    using Cons.prems(1) by (auto split: prod.splits sum.splits)
  let ?h = "h(e := (h e)\<lparr>data := dat'\<rparr>)"
  show ?case
  proof (cases "x = e")
    case True
    from idem[OF Cons.prems(3)] step True
    have P': "P dat'" and again: "apply_event env child d x dat' = (Inr (), dat')" by auto
    show ?thesis
    proof (cases "x \<in> set es")
      case in_rest: True
      have "apply_event env child d x (data (?h x)) = (Inr (), data (h' x))"
        by (rule Cons.IH[OF rest in_rest]) (simp add: True P')
      with again True have "data (h' x) = dat'" by simp
      with step True show ?thesis by simp
    next
      case False
      from apply_events_other[OF False, of env child d ?h] rest
      have "h' x = ?h x" by simp
      with step True show ?thesis by simp
    qed
  next
    case False
    with Cons.prems(2) have "x \<in> set es" by simp
    from Cons.IH[OF rest this] False Cons.prems(3) show ?thesis by simp
  qed
qed

lemma build_desired_next:
  "build_desired l no_desired = Inr d \<Longrightarrow>
     set (desired_next d) = {e. \<exists>pl\<in>set l. parent pl = e \<and> link_type pl = Next}"
  by (drule build_desired_Inr) (auto simp: no_desired_def)

section \<open>Sequential parents\<close>

text \<open>
  C5. After a successful apply, a sequential event \<open>e\<close> of the flowchart has its \<^verbatim>\<open>next\<close>
  set to the child if some desired link is a Next link of \<open>e\<close> (whatever it pointed to
  before); otherwise \<^verbatim>\<open>next\<close> is cleared if it was the child, and is left as it was if not.
  Nothing else of the event changes.
\<close>

theorem sequential_parent_next:
  assumes "applyChanges env child l (Some events) h = (Inr (), h')"
    and "e \<in> set events" and "data (h e) = Sequential k nxt"
  shows "h' e = (h e)\<lparr>data := Sequential k
           (if \<exists>pl\<in>set l. parent pl = e \<and> link_type pl = Next then Some child
            else if nxt = Some child then None else nxt)\<rparr>"
proof -
  from assms(1) obtain d where d: "build_desired l no_desired = Inr d"
    and run: "apply_events env child d events h = (Inr (), h')"
    by (auto simp: applyChanges_def Let_def split: if_splits sum.splits)
  have "apply_event env child d e (data (h e)) = (Inr (), data (h' e))"
  proof (rule apply_events_at[OF run assms(2), where P = "\<lambda>dat. \<exists>n. dat = Sequential k n"])
    show "\<exists>n. data (h e) = Sequential k n" using assms(3) by simp
  next
    fix dat dat'
    assume "\<exists>n. dat = Sequential k n" "apply_event env child d e dat = (Inr (), dat')"
    then show "(\<exists>n. dat' = Sequential k n) \<and> apply_event env child d e dat' = (Inr (), dat')"
      by (auto simp: apply_event_def split: if_splits)
  qed
  then have dat: "data (h' e) = Sequential k
           (if \<exists>pl\<in>set l. parent pl = e \<and> link_type pl = Next then Some child
            else if nxt = Some child then None else nxt)"
    using assms(3) build_desired_next[OF d] by (auto simp: apply_event_def split: if_splits)
  have "name (h' e) = name (h e)"
    using apply_events_name[of env child d events h e] run by simp
  with dat show ?thesis by (simp add: event.equality)
qed

theorem sequential_parent_next_witness:
  "fst (applyChanges (ex_env True) 0 [ParentLink 1 Next None] (Some ex_events) ex_heap) = Inr () \<and>
   1 \<in> set ex_events \<and> data (ex_heap 1) = Sequential Action (Some 5) \<and>
   snd (applyChanges (ex_env True) 0 [ParentLink 1 Next None] (Some ex_events) ex_heap) 1 =
     (ex_heap 1)\<lparr>data := Sequential Action (Some 0)\<rparr>"
proof -
  let ?r = "applyChanges (ex_env True) 0 [ParentLink 1 Next None] (Some ex_events) ex_heap"
  have ok: "fst ?r = Inr ()" by (simp add: ex_simps)
  then have run: "?r = (Inr (), snd ?r)" by (simp add: prod_eq_iff)
  have mem: "1 \<in> set ex_events" by (simp add: ex_events_def)
  have dat: "data (ex_heap 1) = Sequential Action (Some 5)" by (simp add: ex_heap_def)
  from sequential_parent_next[OF run mem dat] ok mem dat show ?thesis by simp
qed

text \<open>
  C7. Let some desired Next link have a sequential parent whose \<^verbatim>\<open>next\<close> is an event
  other than the child, and let the user answer No to a question that lists this parent.
  Then \<open>applyChanges\<close> fails and returns the store it was given. When the flowchart exists
  and the list passes the checks that precede the question, the failure is the declined
  overwrite: the question is asked before the main loop mutates anything.
\<close>

theorem overwrite_declined_aborts:
  assumes "pl \<in> set l" and "link_type pl = Next"
    and "data (h (parent pl)) = Sequential k (Some other)" and "other \<noteq> child"
    and "set_order_ok env"
    and "\<forall>ask. parent pl \<in> set ask \<longrightarrow> \<not> confirm env ask"
  shows "(\<exists>err. applyChanges env child l flow h = (Inl err, h)) \<and>
         (flow \<noteq> None \<and> isValid l \<and> (\<forall>pl\<in>set l. link_type pl = SwitchCase \<longrightarrow> detail pl \<noteq> None)
            \<longrightarrow> applyChanges env child l flow h = (Inl OverwriteDeclined, h))"
proof -
  have declined: "applyChanges env child l flow h = (Inl OverwriteDeclined, h)"
    if "flow = Some events" "isValid l" "build_desired l no_desired = Inr d" for events d
  proof -
    let ?ask = "to_overwrite child h (set_order_events env (desired_next d))"
    have "parent pl \<in> set (desired_next d)"
      using build_desired_next[OF that(3)] assms(1,2) by auto
    then have "parent pl \<in> set (set_order_events env (desired_next d))"
      using assms(5) by (simp add: set_order_ok_def)
    then have "parent pl \<in> set ?ask"
      using assms(3,4) by (simp add: to_overwrite_def)
    then have "?ask \<noteq> []" "\<not> confirm env ?ask"
      using assms(6) by auto
    then show ?thesis using that by (simp add: applyChanges_def Let_def)
  qed
  have first: "\<exists>err. applyChanges env child l flow h = (Inl err, h)"
  proof (cases flow)
    case None
    then show ?thesis by (simp add: applyChanges_def)
  next
    case (Some events)
    show ?thesis
    proof (cases "isValid l")
      case False
      with Some show ?thesis by (simp add: applyChanges_def)
    next
      case True
      show ?thesis
      proof (cases "build_desired l no_desired")
        case (Inl err)
        with Some True show ?thesis by (simp add: applyChanges_def)
      next
        case (Inr d)
        from declined[OF Some True Inr] show ?thesis by blast
      qed
    qed
  qed
  have second: "applyChanges env child l flow h = (Inl OverwriteDeclined, h)"
    if "flow \<noteq> None" "isValid l" "\<forall>pl\<in>set l. link_type pl = SwitchCase \<longrightarrow> detail pl \<noteq> None"
  proof -
    from that(1) obtain events where "flow = Some events" by auto
    moreover from build_desired_total[OF that(3)] obtain d where "build_desired l no_desired = Inr d" by blast
    ultimately show ?thesis using declined that(2) by blast
  qed
  from first second show ?thesis by blast
qed

theorem overwrite_declined_aborts_witness:
  "ParentLink 1 Next None \<in> set [ParentLink 1 Next None] \<and>
   data (ex_heap 1) = Sequential Action (Some 5) \<and> (5::nat) \<noteq> 0 \<and> set_order_ok (ex_env False) \<and>
   isValid [ParentLink 1 Next None] \<and>
   applyChanges (ex_env False) 0 [ParentLink 1 Next None] (Some ex_events) ex_heap =
     (Inl OverwriteDeclined, ex_heap)"
proof -
  have dat: "data (ex_heap (parent (ParentLink 1 Next None))) = Sequential Action (Some 5)"
    by (simp add: ex_heap_def)
  have no: "\<forall>ask. parent (ParentLink 1 Next None) \<in> set ask \<longrightarrow> \<not> confirm (ex_env False) ask"
    by (simp add: ex_env_def)
  have valid: "isValid [ParentLink 1 Next None]" by (simp add: isValid_def)
  from overwrite_declined_aborts[of "ParentLink 1 Next None" "[ParentLink 1 Next None]" ex_heap
      Action 5 0 "ex_env False" "Some ex_events", OF _ _ dat _ set_order_ok_ex no] valid dat
  show ?thesis by (simp add: set_order_ok_ex)
qed

section \<open>Fork parents\<close>

lemma build_desired_fork_count:
  "build_desired l no_desired = Inr d \<Longrightarrow>
     desired_fork_count d e = length (filter (\<lambda>pl. link_type pl = ForkBranch \<and> parent pl = e) l)"
  by (drule build_desired_Inr) (simp add: no_desired_def)

lemma keep_forks_others:
  "filter (\<lambda>fork. fork \<noteq> child) (keep_forks child n forks) = filter (\<lambda>fork. fork \<noteq> child) forks"
  by (induction forks arbitrary: n) auto

lemma keep_forks_zero: "keep_forks child 0 forks = filter (\<lambda>fork. fork \<noteq> child) forks"
  by (induction forks) auto

lemma keep_forks_count:
  "length (filter (\<lambda>fork. fork = child) (keep_forks child n forks)) =
     min n (length (filter (\<lambda>fork. fork = child) forks))"
  by (induction forks arbitrary: n) auto

lemma keep_forks_split:
  "n \<le> length (filter (\<lambda>fork. fork = child) forks) \<Longrightarrow>
     \<exists>pre post. forks = pre @ post \<and> length (filter (\<lambda>fork. fork = child) pre) = n \<and>
       keep_forks child n forks = pre @ filter (\<lambda>fork. fork \<noteq> child) post"
proof (induction forks arbitrary: n)
  case Nil
  then show ?case by simp
next
  case (Cons fork forks)
  show ?case
  proof (cases "fork = child")
    case False
    with Cons.prems have "n \<le> length (filter (\<lambda>fork. fork = child) forks)" by simp
    from Cons.IH[OF this] obtain pre post where
      "forks = pre @ post" "length (filter (\<lambda>fork. fork = child) pre) = n"
      "keep_forks child n forks = pre @ filter (\<lambda>fork. fork \<noteq> child) post" by blast
    with False have "fork # forks = (fork # pre) @ post \<and>
        length (filter (\<lambda>fork. fork = child) (fork # pre)) = n \<and>
        keep_forks child n (fork # forks) = (fork # pre) @ filter (\<lambda>fork. fork \<noteq> child) post"
      by simp
    then show ?thesis by blast
  next
    case True
    show ?thesis
    proof (cases n)
      case 0
      with True have "fork # forks = [] @ (fork # forks) \<and>
          length (filter (\<lambda>fork. fork = child) []) = n \<and>
          keep_forks child n (fork # forks) = [] @ filter (\<lambda>fork. fork \<noteq> child) (fork # forks)"
        by (simp add: keep_forks_zero)
      then show ?thesis by blast
    next
      case (Suc m)
      with True Cons.prems have "m \<le> length (filter (\<lambda>fork. fork = child) forks)" by simp
      from Cons.IH[OF this] obtain pre post where
        "forks = pre @ post" "length (filter (\<lambda>fork. fork = child) pre) = m"
        "keep_forks child m forks = pre @ filter (\<lambda>fork. fork \<noteq> child) post" by blast
      with True Suc have "fork # forks = (fork # pre) @ post \<and>
          length (filter (\<lambda>fork. fork = child) (fork # pre)) = n \<and>
          keep_forks child n (fork # forks) = (fork # pre) @ filter (\<lambda>fork. fork \<noteq> child) post"
        by simp
      then show ?thesis by blast
    qed
  qed
qed

lemma apply_event_fork_again:
  assumes "apply_event env child d e (ForkEvent forks) = (Inr (), dat')"
  shows "(\<exists>forks'. dat' = ForkEvent forks') \<and> apply_event env child d e dat' = (Inr (), dat')"
  using assms by (auto simp: apply_event_def Let_def keep_forks_count split: if_splits)

lemma apply_events_fork:
  assumes "apply_events env child d events h = (Inr (), h')"
    and "e \<in> set events" and "data (h e) = ForkEvent forks"
  shows "apply_event env child d e (ForkEvent forks) = (Inr (), data (h' e))"
proof -
  have "apply_event env child d e (data (h e)) = (Inr (), data (h' e))"
  proof (rule apply_events_at[OF assms(1,2), where P = "\<lambda>dat. \<exists>fs. dat = ForkEvent fs"])
    show "\<exists>fs. data (h e) = ForkEvent fs" using assms(3) by simp
  next
    fix dat dat'
    assume "\<exists>fs. dat = ForkEvent fs" "apply_event env child d e dat = (Inr (), dat')"
    then show "(\<exists>fs. dat' = ForkEvent fs) \<and> apply_event env child d e dat' = (Inr (), dat')"
      using apply_event_fork_again by blast
  qed
  with assms(3) show ?thesis by simp
qed

text \<open>
  C6. After a successful apply, a fork event \<open>e\<close> of the flowchart, with \<open>desiredCount\<close> the
  number of desired ForkBranch links of \<open>e\<close> and \<open>currentCount\<close> the number of branches that
  targeted the child: if \<open>desiredCount < currentCount\<close>, the branch sequence splits into a
  front part that holds exactly the first \<open>desiredCount\<close> branches to the child and is kept
  whole, and a rest from which the branches to the child are removed and whose other
  branches stay in order; if \<open>desiredCount > currentCount\<close>, the sequence is the old one with
  \<open>desiredCount - currentCount\<close> branches to the child appended at the end; if they are
  equal the sequence is unchanged.
\<close>

theorem fork_parent_branches:
  assumes "applyChanges env child l (Some events) h = (Inr (), h')"
    and "e \<in> set events" and "data (h e) = ForkEvent forks"
    and "desiredCount = length (filter (\<lambda>pl. parent pl = e \<and> link_type pl = ForkBranch) l)"
    and "currentCount = count_list forks child"
  shows "\<exists>forks'. h' e = (h e)\<lparr>data := ForkEvent forks'\<rparr> \<and>
           (desiredCount < currentCount \<longrightarrow>
              (\<exists>pre post. forks = pre @ post \<and> count_list pre child = desiredCount \<and>
                 forks' = pre @ filter (\<lambda>fork. fork \<noteq> child) post)) \<and>
           (desiredCount > currentCount \<longrightarrow>
              forks' = forks @ replicate (desiredCount - currentCount) child) \<and>
           (desiredCount = currentCount \<longrightarrow> forks' = forks)"
proof -
  from assms(1) obtain d where d: "build_desired l no_desired = Inr d"
    and run: "apply_events env child d events h = (Inr (), h')"
    by (auto simp: applyChanges_def Let_def split: if_splits sum.splits)
  have cnt: "count_list xs child = length (filter (\<lambda>fork. fork = child) xs)" for xs
    by (induction xs) auto
  have des: "desired_fork_count d e = desiredCount"
    using build_desired_fork_count[OF d, of e] assms(4) by (simp add: conj_commute)
  have step: "apply_event env child d e (ForkEvent forks) = (Inr (), data (h' e))"
    by (rule apply_events_fork[OF run assms(2,3)])
  have nm: "name (h' e) = name (h e)"
    using apply_events_name[of env child d events h e] run by simp
  have upd: "h' e = (h e)\<lparr>data := data (h' e)\<rparr>"
    using nm by (simp add: event.equality)
  consider (less) "desiredCount < currentCount" | (greater) "desiredCount > currentCount"
    | (equal) "desiredCount = currentCount" by linarith
  then show ?thesis
  proof cases
    case less
    then have dat: "data (h' e) = ForkEvent (keep_forks child desiredCount forks)"
      using step des assms(5) by (simp add: apply_event_def Let_def cnt)
    from less assms(5) have "desiredCount \<le> length (filter (\<lambda>fork. fork = child) forks)"
      by (simp add: cnt)
    from keep_forks_split[OF this] obtain pre post where split:
      "forks = pre @ post" "count_list pre child = desiredCount"
      "keep_forks child desiredCount forks = pre @ filter (\<lambda>fork. fork \<noteq> child) post"
      by (auto simp: cnt)
    have "h' e = (h e)\<lparr>data := ForkEvent (pre @ filter (\<lambda>fork. fork \<noteq> child) post)\<rparr>"
      using upd dat split(3) by simp
    moreover have "\<exists>pre' post'. forks = pre' @ post' \<and> count_list pre' child = desiredCount \<and>
        pre @ filter (\<lambda>fork. fork \<noteq> child) post = pre' @ filter (\<lambda>fork. fork \<noteq> child) post'"
      using split(1,2) by blast
    ultimately show ?thesis using less by (intro exI[of _ "pre @ filter (\<lambda>fork. fork \<noteq> child) post"]) simp
  next
    case greater
    then have "data (h' e) = ForkEvent (forks @ replicate (desiredCount - currentCount) child)"
      using step des assms(5) by (simp add: apply_event_def Let_def cnt)
    with upd have "h' e = (h e)\<lparr>data := ForkEvent (forks @ replicate (desiredCount - currentCount) child)\<rparr>"
      by simp
    then show ?thesis using greater
      by (intro exI[of _ "forks @ replicate (desiredCount - currentCount) child"]) simp
  next
    case equal
    then have "data (h' e) = ForkEvent forks"
      using step des assms(5) by (simp add: apply_event_def Let_def cnt)
    with upd have "h' e = (h e)\<lparr>data := ForkEvent forks\<rparr>" by simp
    then show ?thesis using equal by (intro exI[of _ forks]) simp
  qed
qed

theorem fork_parent_branches_witness:
  "fst (applyChanges (ex_env True) 0 [ParentLink 3 ForkBranch None] (Some ex_events) ex_heap) = Inr () \<and>
   3 \<in> set ex_events \<and> data (ex_heap 3) = ForkEvent [0, 5, 0] \<and>
   (1::nat) = length (filter (\<lambda>pl. parent pl = 3 \<and> link_type pl = ForkBranch) [ParentLink 3 ForkBranch None]) \<and>
   (2::nat) = count_list [0, 5, 0::nat] 0 \<and>
   (\<exists>forks'.
      snd (applyChanges (ex_env True) 0 [ParentLink 3 ForkBranch None] (Some ex_events) ex_heap) 3 =
        (ex_heap 3)\<lparr>data := ForkEvent forks'\<rparr> \<and>
      (\<exists>pre post. [0, 5, 0] = pre @ post \<and> count_list pre 0 = 1 \<and>
         forks' = pre @ filter (\<lambda>fork. fork \<noteq> 0) post))"
proof -
  let ?l = "[ParentLink 3 ForkBranch None]"
  let ?r = "applyChanges (ex_env True) 0 ?l (Some ex_events) ex_heap"
  have ok: "fst ?r = Inr ()" by (simp add: ex_simps)
  then have run: "?r = (Inr (), snd ?r)" by (simp add: prod_eq_iff)
  have mem: "3 \<in> set ex_events" by (simp add: ex_events_def)
  have dat: "data (ex_heap 3) = ForkEvent [0, 5, 0]" by (simp add: ex_heap_def)
  have des: "(1::nat) = length (filter (\<lambda>pl. parent pl = 3 \<and> link_type pl = ForkBranch) ?l)" by simp
  have cur: "(2::nat) = count_list [0, 5, 0::nat] 0" by simp
  from fork_parent_branches[OF run mem dat des cur] ok mem dat des cur show ?thesis by simp
qed

section \<open>Switch parents\<close>

lemma remove_cases_filter_keys:
  "distinct (map fst cases) \<Longrightarrow>
     remove_cases child des keys cases =
       filter (\<lambda>(v, t). \<not> (v \<in> set keys \<and> t = child \<and> v \<notin> set des)) cases"
proof (induction keys arbitrary: cases)
  case Nil
  then show ?case by simp
next
  case (Cons k keys)
  show ?case
  proof (cases "map_of cases k = Some child \<and> k \<notin> set des")
    case True
    have "distinct (map fst (AList.delete k cases))"
      using Cons.prems by (rule distinct_delete)
    from Cons.IH[OF this] True
    have "remove_cases child des (k # keys) cases =
        filter (\<lambda>(v, t). \<not> (v \<in> set keys \<and> t = child \<and> v \<notin> set des)) (AList.delete k cases)"
      by simp
    also have "\<dots> = filter (\<lambda>(v, t). \<not> (v \<in> set (k # keys) \<and> t = child \<and> v \<notin> set des)) cases"
    proof -
      have key: "\<forall>(v, t)\<in>set cases. v = k \<longrightarrow> t = child"
        using True Cons.prems by (auto dest: eq_key_imp_eq_value)
      show ?thesis
        unfolding AList.delete_eq filter_filter
        by (rule filter_cong[OF refl]) (use key True in auto)
    qed
    finally show ?thesis .
  next
    case False
    from Cons.IH[OF Cons.prems] False
    have "remove_cases child des (k # keys) cases =
        filter (\<lambda>(v, t). \<not> (v \<in> set keys \<and> t = child \<and> v \<notin> set des)) cases"
      by auto
    also have "\<dots> = filter (\<lambda>(v, t). \<not> (v \<in> set (k # keys) \<and> t = child \<and> v \<notin> set des)) cases"
    proof -
      have key: "\<forall>(v, t)\<in>set cases. v = k \<longrightarrow> \<not> (t = child \<and> v \<notin> set des)"
        using False Cons.prems by (auto dest: eq_key_imp_eq_value)
      show ?thesis
        by (rule filter_cong[OF refl]) (use key in auto)
    qed
    finally show ?thesis .
  qed
qed

lemma remove_cases_filter:
  assumes "distinct (map fst cases)"
  shows "remove_cases child des (map fst cases) cases =
           filter (\<lambda>(v, t). \<not> (t = child \<and> v \<notin> set des)) cases"
proof -
  have "remove_cases child des (map fst cases) cases =
      filter (\<lambda>(v, t). \<not> (v \<in> set (map fst cases) \<and> t = child \<and> v \<notin> set des)) cases"
    by (rule remove_cases_filter_keys[OF assms])
  also have "\<dots> = filter (\<lambda>(v, t). \<not> (t = child \<and> v \<notin> set des)) cases"
    by (rule filter_cong[OF refl]) force
  finally show ?thesis .
qed

lemma remove_cases_none:
  "\<forall>(v, t)\<in>set cases. t = child \<longrightarrow> v \<in> set des \<Longrightarrow> remove_cases child des keys cases = cases"
  by (induction keys) (auto dest: map_of_SomeD)

lemma add_cases_others:
  "filter (\<lambda>(v, t). t \<noteq> child) (snd (add_cases child vs cases)) = filter (\<lambda>(v, t). t \<noteq> child) cases"
  by (induction vs arbitrary: cases) (auto split: option.splits)

lemma add_cases_distinct:
  "distinct (map fst cases) \<Longrightarrow> distinct (map fst (snd (add_cases child vs cases)))"
  by (induction vs arbitrary: cases) (auto split: option.splits simp: map_of_eq_None_iff)

lemma add_cases_ok:
  "distinct vs \<Longrightarrow> \<forall>v\<in>set vs. map_of cases v = None \<or> map_of cases v = Some child \<Longrightarrow>
     add_cases child vs cases =
       (None, cases @ map (\<lambda>v. (v, child)) (filter (\<lambda>v. map_of cases v = None) vs))"
proof (induction vs arbitrary: cases)
  case Nil
  then show ?case by simp
next
  case (Cons k vs)
  show ?case
  proof (cases "map_of cases k")
    case (Some t)
    with Cons.prems have "t = child" by auto
    with Some Cons show ?thesis by simp
  next
    case None
    let ?cases = "cases @ [(k, child)]"
    have other: "map_of ?cases v = map_of cases v" if "v \<in> set vs" for v
    proof -
      from that Cons.prems(1) have "v \<noteq> k" by auto
      then show ?thesis by (simp add: map_add_def split: option.splits)
    qed
    then have "\<forall>v\<in>set vs. map_of ?cases v = None \<or> map_of ?cases v = Some child"
      using Cons.prems(2) by simp
    with Cons.IH[of ?cases] Cons.prems(1)
    have "add_cases child vs ?cases =
        (None, ?cases @ map (\<lambda>v. (v, child)) (filter (\<lambda>v. map_of ?cases v = None) vs))"
      by simp
    moreover have "filter (\<lambda>v. map_of ?cases v = None) vs = filter (\<lambda>v. map_of cases v = None) vs"
      by (rule filter_cong[OF refl]) (simp only: other)
    ultimately show ?thesis using None by simp
  qed
qed

lemma add_cases_conflict_iff:
  "fst (add_cases child vs cases) \<noteq> None \<longleftrightarrow>
     (\<exists>v\<in>set vs. \<exists>t. map_of cases v = Some t \<and> t \<noteq> child)"
proof (induction vs arbitrary: cases)
  case Nil
  then show ?case by simp
next
  case (Cons k vs)
  show ?case
  proof (cases "map_of cases k")
    case (Some t)
    with Cons show ?thesis by auto
  next
    case None
    have "map_of (cases @ [(k, child)]) v = Some t \<and> t \<noteq> child \<longleftrightarrow> map_of cases v = Some t \<and> t \<noteq> child" for v t
      by (auto simp: map_add_def split: option.splits if_splits)
    with Cons.IH[of "cases @ [(k, child)]"] None show ?thesis by auto
  qed
qed

section \<open>What an apply leaves alone\<close>

lemma build_desired_switch:
  "build_desired l no_desired = Inr d \<Longrightarrow>
     desired_switch d e =
       map (\<lambda>pl. the (detail pl)) (filter (\<lambda>pl. link_type pl = SwitchCase \<and> parent pl = e) l)"
  by (drule build_desired_Inr) (simp add: no_desired_def)

lemma applyChanges_cases:
  assumes "applyChanges env child l flow h = (r, h')"
  obtains (untouched) "h' = h" "r \<noteq> Inr ()"
  | (loop) events d where "flow = Some events" "isValid l" "build_desired l no_desired = Inr d"
      "apply_events env child d events h = (r, h')"
  using assms
  by (auto simp: applyChanges_def Let_def split: option.splits if_splits sum.splits)

lemma apply_events_preserves:
  assumes "\<And>dat. Q dat \<Longrightarrow> Q (snd (apply_event env child d x dat))" and "Q (data (h x))"
  shows "Q (data (snd (apply_events env child d es h) x))"
  using assms(2)
proof (induction es arbitrary: h)
  case Nil
  then show ?case by simp
next
  case (Cons e es)
  obtain r dat' where step: "apply_event env child d e (data (h e)) = (r, dat')"
    by (cases "apply_event env child d e (data (h e))")
  let ?h = "h(e := (h e)\<lparr>data := dat'\<rparr>)"
  have Q': "Q (data (?h x))"
  proof (cases "x = e")
    case True
    from assms(1)[OF Cons.prems] step True show ?thesis by simp
  next
    case False
    with Cons.prems show ?thesis by simp
  qed
  show ?case
  proof (cases r)
    case (Inl err)
    with step Q' show ?thesis by simp
  next
    case (Inr u)
    with step have "apply_events env child d (e # es) h = apply_events env child d es ?h"
      by simp
    with Cons.IH[of ?h, OF Q'] show ?thesis by (simp only:)
  qed
qed

lemma apply_event_switch_snd:
  "snd (apply_event env child d e (SwitchEvent cases)) =
     SwitchEvent (snd (add_cases child (set_order_ints env (desired_switch d e))
       (remove_cases child (desired_switch d e) (map fst cases) cases)))"
  by (simp add: apply_event_def Let_def split: prod.splits option.splits)

lemma apply_event_unlinked:
  assumes "set_order_ints env [] = []"
    and "e \<notin> set (desired_next d)" and "desired_switch d e = []" and "desired_fork_count d e = 0"
    and "links_of_event child e dat = []"
  shows "apply_event env child d e dat = (Inr (), dat)"
proof (cases dat)
  case (Sequential k nxt)
  with assms show ?thesis by (auto simp: apply_event_def split: if_splits)
next
  case (SwitchEvent cases)
  with assms(5) have "\<forall>(v, t)\<in>set cases. t \<noteq> child"
    by (auto simp: filter_empty_conv)
  then have "remove_cases child [] (map fst cases) cases = cases"
    by (intro remove_cases_none) auto
  with SwitchEvent assms(1,3) show ?thesis by (simp add: apply_event_def)
next
  case (ForkEvent forks)
  with assms(4,5) show ?thesis by (simp add: apply_event_def)
next
  case OtherData
  then show ?thesis by (simp add: apply_event_def)
qed

text \<open>
  C9. Frame condition, for any outcome of \<open>applyChanges\<close> and so for a successful one: an
  event that is the parent of no desired link and in which the scan finds no link to the
  child (its \<^verbatim>\<open>next\<close> is not the child, no case and no fork branch of it targets the child)
  is left as it was; and the cases of a switch (a dictionary, its keys distinct) and the
  branches of a fork that target events other than the child are the same afterwards, in
  the same order.
\<close>

theorem frame_condition:
  assumes "set_order_ok env" and "applyChanges env child l flow h = (r, h')"
  shows "((\<forall>pl\<in>set l. parent pl \<noteq> e) \<and> links_of_event child e (data (h e)) = [] \<longrightarrow> h' e = h e) \<and>
         (\<forall>cases. data (h e) = SwitchEvent cases \<and> distinct (map fst cases) \<longrightarrow>
            (\<exists>cases'. data (h' e) = SwitchEvent cases' \<and>
               filter (\<lambda>(v, t). t \<noteq> child) cases' = filter (\<lambda>(v, t). t \<noteq> child) cases)) \<and>
         (\<forall>forks. data (h e) = ForkEvent forks \<longrightarrow>
            (\<exists>forks'. data (h' e) = ForkEvent forks' \<and>
               filter (\<lambda>fork. fork \<noteq> child) forks' = filter (\<lambda>fork. fork \<noteq> child) forks))"
  using assms(2)
proof (cases rule: applyChanges_cases)
  case untouched
  then show ?thesis by simp
next
  case (loop events d)
  have h': "h' = snd (apply_events env child d events h)" using loop(4) by simp
  have nm: "name (h' e) = name (h e)" unfolding h' by (rule apply_events_name)
  have empty: "set_order_ints env [] = []"
    using assms(1) by (simp add: set_order_ok_def flip: set_empty)
  have one: "h' e = h e" if "\<forall>pl\<in>set l. parent pl \<noteq> e" "links_of_event child e (data (h e)) = []"
  proof -
    have "e \<notin> set (desired_next d)" using build_desired_next[OF loop(3)] that(1) by auto
    moreover have "desired_switch d e = []"
      using build_desired_switch[OF loop(3), of e] that(1) by (simp add: filter_empty_conv)
    moreover have "desired_fork_count d e = 0"
      using build_desired_fork_count[OF loop(3), of e] that(1) by (simp add: filter_empty_conv)
    ultimately have step: "apply_event env child d e dat = (Inr (), dat)"
      if "links_of_event child e dat = []" for dat
      using apply_event_unlinked[OF empty _ _ _ that] by simp
    have "data (h' e) = data (h e)"
      unfolding h'
      by (rule apply_events_preserves[where Q = "\<lambda>dat. dat = data (h e)"]) (simp_all add: step that(2))
    with nm show ?thesis by (simp add: event.equality)
  qed
  have two: "\<exists>cases'. data (h' e) = SwitchEvent cases' \<and>
      filter (\<lambda>(v, t). t \<noteq> child) cases' = filter (\<lambda>(v, t). t \<noteq> child) cases"
    if "data (h e) = SwitchEvent cases" "distinct (map fst cases)" for cases
  proof -
    let ?Q = "\<lambda>dat. \<exists>cs. dat = SwitchEvent cs \<and> distinct (map fst cs) \<and>
      filter (\<lambda>(v, t). t \<noteq> child) cs = filter (\<lambda>(v, t). t \<noteq> child) cases"
    have "?Q (data (snd (apply_events env child d events h) e))"
    proof (rule apply_events_preserves[where Q = ?Q])
      show "?Q (data (h e))" using that by simp
    next
      fix dat assume "?Q dat"
      then obtain cs where cs: "dat = SwitchEvent cs" "distinct (map fst cs)"
        "filter (\<lambda>(v, t). t \<noteq> child) cs = filter (\<lambda>(v, t). t \<noteq> child) cases" by blast
      let ?cs1 = "remove_cases child (desired_switch d e) (map fst cs) cs"
      have cs1: "?cs1 = filter (\<lambda>(v, t). \<not> (t = child \<and> v \<notin> set (desired_switch d e))) cs"
        by (rule remove_cases_filter[OF cs(2)])
      have "distinct (map fst ?cs1)" unfolding cs1 using cs(2) by (rule distinct_map_filter)
      moreover have "filter (\<lambda>(v, t). t \<noteq> child) ?cs1 = filter (\<lambda>(v, t). t \<noteq> child) cs"
        unfolding cs1 filter_filter by (rule filter_cong[OF refl]) auto
      ultimately show "?Q (snd (apply_event env child d e dat))"
        unfolding cs(1) apply_event_switch_snd
        using cs(3) by (simp add: add_cases_others add_cases_distinct)
    qed
    then show ?thesis unfolding h' by blast
  qed
  have three: "\<exists>forks'. data (h' e) = ForkEvent forks' \<and>
      filter (\<lambda>fork. fork \<noteq> child) forks' = filter (\<lambda>fork. fork \<noteq> child) forks"
    if "data (h e) = ForkEvent forks" for forks
  proof -
    let ?Q = "\<lambda>dat. \<exists>fs. dat = ForkEvent fs \<and>
      filter (\<lambda>fork. fork \<noteq> child) fs = filter (\<lambda>fork. fork \<noteq> child) forks"
    have "?Q (data (snd (apply_events env child d events h) e))"
    proof (rule apply_events_preserves[where Q = ?Q])
      show "?Q (data (h e))" using that by simp
    next
      fix dat assume "?Q dat"
      then show "?Q (snd (apply_event env child d e dat))"
        by (auto simp: apply_event_def Let_def keep_forks_others)
    qed
    then show ?thesis unfolding h' by blast
  qed
  from one two three show ?thesis by blast
qed

theorem frame_condition_witness:
  "set_order_ok (ex_env True) \<and>
   parent (ParentLink 2 SwitchCase (Some 1)) \<noteq> 5 \<and>
   links_of_event 0 5 (data (ex_heap 5)) = [] \<and>
   snd (applyChanges (ex_env True) 0 [ParentLink 2 SwitchCase (Some 1)] (Some ex_events) ex_heap) 5 =
     ex_heap 5 \<and>
   data (ex_heap 2) = SwitchEvent [(1, 0), (2, 0), (3, 5)] \<and>
   distinct (map fst [(1::int, 0::nat), (2, 0), (3, 5)]) \<and>
   (\<exists>cases'.
      data (snd (applyChanges (ex_env True) 0 [ParentLink 2 SwitchCase (Some 1)] (Some ex_events)
        ex_heap) 2) = SwitchEvent cases' \<and>
      filter (\<lambda>(v, t). t \<noteq> 0) cases' = [(3, 5)]) \<and>
   data (ex_heap 3) = ForkEvent [0, 5, 0] \<and>
   (\<exists>forks'.
      data (snd (applyChanges (ex_env True) 0 [ParentLink 2 SwitchCase (Some 1)] (Some ex_events)
        ex_heap) 3) = ForkEvent forks' \<and>
      filter (\<lambda>fork. fork \<noteq> 0) forks' = [5])"
proof -
  let ?l = "[ParentLink 2 SwitchCase (Some 1)]"
  let ?r = "applyChanges (ex_env True) 0 ?l (Some ex_events) ex_heap"
  have run: "?r = (fst ?r, snd ?r)" by simp
  have e5: "links_of_event 0 5 (data (ex_heap 5)) = []" by (simp add: ex_heap_def)
  have e2: "data (ex_heap 2) = SwitchEvent [(1, 0), (2, 0), (3, 5)]" by (simp add: ex_heap_def)
  have e3: "data (ex_heap 3) = ForkEvent [0, 5, 0]" by (simp add: ex_heap_def)
  from frame_condition[OF set_order_ok_ex run, of 5] e5
  have "snd ?r 5 = ex_heap 5" by simp
  moreover from frame_condition[OF set_order_ok_ex run, of 2] e2
  have "\<exists>cases'. data (snd ?r 2) = SwitchEvent cases' \<and> filter (\<lambda>(v, t). t \<noteq> 0) cases' = [(3, 5)]"
    by simp
  moreover from frame_condition[OF set_order_ok_ex run, of 3] e3
  have "\<exists>forks'. data (snd ?r 3) = ForkEvent forks' \<and> filter (\<lambda>fork. fork \<noteq> 0) forks' = [5]"
    by simp
  ultimately show ?thesis using e5 e2 e3 by (simp add: set_order_ok_ex)
qed

section \<open>A switch conflict\<close>

text \<open>
  C2. The claim is that an apply which fails with a switch conflict leaves the whole graph
  as it was. The main loop finds the conflict only when it reaches the switch, after the
  events before it have been reconciled and after the first loop over the switch itself;
  the two checks before the loop (validation, overwrite question) do return before any
  mutation. The code at the failing input: in the example
  flowchart, visited in the order 0, 4, 2, 3, 1, 5, the desired list asks for case 3 of
  switch 2, which is bound to event 5. The apply fails with the conflict, join 4 has lost
  its \<^verbatim>\<open>next\<close> (it was the child and is not desired) and switch 2 has lost its cases 1 and
  2: the store is not the one before the apply.
\<close>

theorem conflict_after_mutation:
  "fst (applyChanges (ex_env True) 0 [ParentLink 2 SwitchCase (Some 3)] (Some [0, 4, 2, 3, 1, 5]) ex_heap)
     = Inl (ConflictError 2 3) \<and>
   data (ex_heap 4) = Sequential Join (Some 0) \<and>
   data (snd (applyChanges (ex_env True) 0 [ParentLink 2 SwitchCase (Some 3)] (Some [0, 4, 2, 3, 1, 5])
     ex_heap) 4) = Sequential Join None \<and>
   data (ex_heap 2) = SwitchEvent [(1, 0), (2, 0), (3, 5)] \<and>
   data (snd (applyChanges (ex_env True) 0 [ParentLink 2 SwitchCase (Some 3)] (Some [0, 4, 2, 3, 1, 5])
     ex_heap) 2) = SwitchEvent [(3, 5)] \<and>
   snd (applyChanges (ex_env True) 0 [ParentLink 2 SwitchCase (Some 3)] (Some [0, 4, 2, 3, 1, 5]) ex_heap)
     \<noteq> ex_heap"
proof -
  let ?r = "applyChanges (ex_env True) 0 [ParentLink 2 SwitchCase (Some 3)] (Some [0, 4, 2, 3, 1, 5]) ex_heap"
  have a: "fst ?r = Inl (ConflictError 2 3)" by (simp add: ex_simps)
  have b: "data (ex_heap 4) = Sequential Join (Some 0)" by (simp add: ex_heap_def)
  have c: "data (snd ?r 4) = Sequential Join None" by (simp add: ex_simps)
  have d: "data (ex_heap 2) = SwitchEvent [(1, 0), (2, 0), (3, 5)]" by (simp add: ex_heap_def)
  have e: "data (snd ?r 2) = SwitchEvent [(3, 5)]" by (simp add: ex_simps)
  have "snd ?r 4 \<noteq> ex_heap 4" using b c by auto
  then have f: "snd ?r \<noteq> ex_heap" by auto
  from a b c d e f show ?thesis by simp
qed

section \<open>Fork branch links in the dialog\<close>

lemma fork_branch_count_append:
  "fork_branch_count e (l @ [link]) =
     fork_branch_count e l + (if link_type link = ForkBranch \<and> parent link = e then 1 else 0)"
  by (simp add: fork_branch_count_def)

lemma fork_branch_count_zero:
  assumes "\<forall>pl\<in>set l. link_type pl = ForkBranch \<longrightarrow> detail pl = None"
    and "ParentLink e ForkBranch None \<notin> set l"
  shows "fork_branch_count e l = 0"
proof -
  have "pl \<in> set l \<Longrightarrow> \<not> (link_type pl = ForkBranch \<and> parent pl = e)" for pl
    using assms by (cases pl) auto
  then show ?thesis by (simp add: fork_branch_count_def filter_empty_conv)
qed

lemma appendLink_fork_count:
  assumes "\<forall>pl\<in>set l. link_type pl = ForkBranch \<longrightarrow> detail pl = None"
    and "link_type link = ForkBranch \<longrightarrow> detail link = None"
  shows "fork_branch_count e (snd (appendLink link l)) \<le> max 1 (fork_branch_count e l)"
proof (cases "link \<in> set l")
  case True
  then show ?thesis by (simp add: appendLink_def list_ex_iff)
next
  case False
  then have app: "snd (appendLink link l) = l @ [link]"
    by (auto simp: appendLink_def list_ex_iff)
  show ?thesis
  proof (cases "link_type link = ForkBranch \<and> parent link = e")
    case True
    with assms(2) have "link = ParentLink e ForkBranch None" by (cases link) simp
    with False assms(1) have "fork_branch_count e l = 0"
      by (intro fork_branch_count_zero) simp_all
    with True show ?thesis by (simp add: app fork_branch_count_append)
  next
    case False
    then show ?thesis by (auto simp: app fork_branch_count_append)
  qed
qed

lemma appendLink_details:
  assumes "\<forall>pl\<in>set l. link_type pl = ForkBranch \<longrightarrow> detail pl = None"
    and "link_type link = ForkBranch \<longrightarrow> detail link = None"
  shows "\<forall>pl\<in>set (snd (appendLink link l)). link_type pl = ForkBranch \<longrightarrow> detail pl = None"
  using assms by (auto simp: appendLink_def)

lemma removeRow_subset:
  assumes "removeRow row l = Inr (ok, l')"
  shows "set l' \<subseteq> set l" and "fork_branch_count e l' \<le> fork_branch_count e l"
proof -
  from assms obtain j where j: "j < length l" and l': "l' = take j l @ drop (Suc j) l"
    by (auto simp: removeRow_def Let_def split: if_splits intro: that[where j = "nat row"] that[where j = "nat (int (length l) + row)"])
  have l: "l = take j l @ l ! j # drop (Suc j) l"
    using j by (simp add: id_take_nth_drop)
  show "set l' \<subseteq> set l"
    unfolding l' by (auto dest: in_set_takeD in_set_dropD)
  have "fork_branch_count e l = fork_branch_count e l' +
      (if link_type (l ! j) = ForkBranch \<and> parent (l ! j) = e then 1 else 0)"
    unfolding l' by (subst l) (simp add: fork_branch_count_def)
  then show "fork_branch_count e l' \<le> fork_branch_count e l" by simp
qed

lemma run_ops_fork_count:
  assumes "run_ops ops l0 = Inr l"
    and "\<forall>pl\<in>set l0. link_type pl = ForkBranch \<longrightarrow> detail pl = None"
    and "\<forall>link. AppendLink link \<in> set ops \<longrightarrow> link_type link = ForkBranch \<longrightarrow> detail link = None"
  shows "fork_branch_count e l \<le> max 1 (fork_branch_count e l0)"
  using assms
proof (induction ops arbitrary: l0)
  case Nil
  then show ?case by simp
next
  case (Cons op ops)
  show ?case
  proof (cases op)
    case (AppendLink link)
    let ?l1 = "snd (appendLink link l0)"
    have lk: "link_type link = ForkBranch \<longrightarrow> detail link = None"
      using Cons.prems(3) AppendLink by simp
    have "run_ops ops ?l1 = Inr l" using Cons.prems(1) AppendLink by simp
    moreover have "\<forall>pl\<in>set ?l1. link_type pl = ForkBranch \<longrightarrow> detail pl = None"
      by (rule appendLink_details[OF Cons.prems(2) lk])
    moreover have "\<forall>link. AppendLink link \<in> set ops \<longrightarrow> link_type link = ForkBranch \<longrightarrow> detail link = None"
      using Cons.prems(3) by simp
    ultimately have "fork_branch_count e l \<le> max 1 (fork_branch_count e ?l1)"
      by (rule Cons.IH)
    moreover have "fork_branch_count e ?l1 \<le> max 1 (fork_branch_count e l0)"
      by (rule appendLink_fork_count[OF Cons.prems(2) lk])
    ultimately show ?thesis by simp
  next
    case (RemoveRow row)
    with Cons.prems(1) obtain ok l1 where rm: "removeRow row l0 = Inr (ok, l1)"
      and run: "run_ops ops l1 = Inr l"
      by (auto split: sum.splits)
    have "\<forall>pl\<in>set l1. link_type pl = ForkBranch \<longrightarrow> detail pl = None"
      using removeRow_subset(1)[OF rm] Cons.prems(2) by auto
    moreover have "\<forall>link. AppendLink link \<in> set ops \<longrightarrow> link_type link = ForkBranch \<longrightarrow> detail link = None"
      using Cons.prems(3) by simp
    ultimately have "fork_branch_count e l \<le> max 1 (fork_branch_count e l1)"
      using run by (intro Cons.IH)
    moreover have "fork_branch_count e l1 \<le> fork_branch_count e l0"
      by (rule removeRow_subset(2)[OF rm])
    ultimately show ?thesis by simp
  qed
qed

lemma links_of_event_fork_detail:
  "pl \<in> set (links_of_event child e dat) \<Longrightarrow> link_type pl = ForkBranch \<Longrightarrow> detail pl = None"
  by (cases dat) (auto split: if_splits)

lemma gatherExistingLinks_fork_detail:
  "\<forall>pl\<in>set (gatherExistingLinks child flow h). link_type pl = ForkBranch \<longrightarrow> detail pl = None"
  by (auto simp: gatherExistingLinks_def split: option.splits dest: links_of_event_fork_detail)

text \<open>
  C10 as stated fails for a fork that has no branch to the child when the dialog opens: the
  scan for child 1 of the example flowchart seeds no link, \<open>appendLink\<close> accepts a ForkBranch
  link of fork 3, and the count of fork 3 is 1, above its seeded count 0.
\<close>

theorem fork_count_raised_counterexample:
  "run_ops [AppendLink (ParentLink 3 ForkBranch None)] (gatherExistingLinks 1 (Some ex_events) ex_heap)
     = Inr [ParentLink 3 ForkBranch None] \<and>
   \<not> fork_branch_count 3 [ParentLink 3 ForkBranch None]
       \<le> fork_branch_count 3 (gatherExistingLinks 1 (Some ex_events) ex_heap)"
  by (simp add: gatherExistingLinks_def ex_events_def ex_heap_def appendLink_def
      fork_branch_count_def)

text \<open>
  C10, amended. Start from the list seeded by the scan and run any sequence of \<open>appendLink\<close>
  and \<open>removeRow\<close> operations whose appended ForkBranch links carry no detail (as the dialog
  builds them). Then \<open>appendLink\<close> rejects a ForkBranch link of a parent that has one in the
  list, and the number of ForkBranch entries of a parent is at most the larger of 1 and its
  seeded count: a parent with no seeded branch can get one entry, and a count is never
  raised above a seeded count of 1 or more.
\<close>

theorem fork_branch_count_bounded:
  assumes "run_ops ops (gatherExistingLinks child flow h) = Inr l"
    and "\<forall>link. AppendLink link \<in> set ops \<longrightarrow> link_type link = ForkBranch \<longrightarrow> detail link = None"
  shows "(ParentLink e ForkBranch None \<in> set l \<longrightarrow>
            appendLink (ParentLink e ForkBranch None) l = (False, l)) \<and>
         fork_branch_count e l \<le> max 1 (fork_branch_count e (gatherExistingLinks child flow h))"
proof -
  have "fork_branch_count e l \<le> max 1 (fork_branch_count e (gatherExistingLinks child flow h))"
    by (rule run_ops_fork_count[OF assms(1) gatherExistingLinks_fork_detail assms(2)])
  then show ?thesis by (simp add: appendLink_def list_ex_iff)
qed

theorem fork_branch_count_bounded_witness:
  "run_ops [AppendLink (ParentLink 3 ForkBranch None), RemoveRow 2, AppendLink (ParentLink 3 ForkBranch None)]
     (gatherExistingLinks 0 (Some ex_events) ex_heap) =
     Inr [ParentLink 2 SwitchCase (Some 1), ParentLink 2 SwitchCase (Some 2),
          ParentLink 3 ForkBranch None, ParentLink 4 Next None] \<and>
   ParentLink 3 ForkBranch None \<in>
     set [ParentLink 2 SwitchCase (Some 1), ParentLink 2 SwitchCase (Some 2),
          ParentLink 3 ForkBranch None, ParentLink 4 Next None] \<and>
   appendLink (ParentLink 3 ForkBranch None)
     [ParentLink 2 SwitchCase (Some 1), ParentLink 2 SwitchCase (Some 2),
      ParentLink 3 ForkBranch None, ParentLink 4 Next None] =
     (False, [ParentLink 2 SwitchCase (Some 1), ParentLink 2 SwitchCase (Some 2),
              ParentLink 3 ForkBranch None, ParentLink 4 Next None]) \<and>
   fork_branch_count 3 (gatherExistingLinks 0 (Some ex_events) ex_heap) = 2 \<and>
   fork_branch_count 3 [ParentLink 2 SwitchCase (Some 1), ParentLink 2 SwitchCase (Some 2),
                        ParentLink 3 ForkBranch None, ParentLink 4 Next None] \<le> max 1 2"
proof -
  let ?ops = "[AppendLink (ParentLink 3 ForkBranch None), RemoveRow 2,
               AppendLink (ParentLink 3 ForkBranch None)]"
  let ?l = "[ParentLink 2 SwitchCase (Some 1), ParentLink 2 SwitchCase (Some 2),
             ParentLink 3 ForkBranch None, ParentLink 4 Next None]"
  have run: "run_ops ?ops (gatherExistingLinks 0 (Some ex_events) ex_heap) = Inr ?l"
    by (simp add: gatherExistingLinks_def ex_events_def ex_heap_def appendLink_def removeRow_def)
  have ops: "\<forall>link. AppendLink link \<in> set ?ops \<longrightarrow> link_type link = ForkBranch \<longrightarrow> detail link = None"
    by auto
  have seeded: "fork_branch_count 3 (gatherExistingLinks 0 (Some ex_events) ex_heap) = 2"
    by (simp add: gatherExistingLinks_def ex_events_def ex_heap_def fork_branch_count_def)
  from fork_branch_count_bounded[OF run ops, of 3] run seeded show ?thesis by simp
qed

section \<open>Rescanning the graph\<close>

lemma links_of_event_parent: "pl \<in> set (links_of_event child e dat) \<Longrightarrow> parent pl = e"
  by (cases dat) (auto split: if_splits)

lemma links_of_event_filter_parent:
  "filter (\<lambda>pl. parent pl = x) (links_of_event child e dat) =
     (if e = x then links_of_event child e dat else [])"
  by (auto simp: filter_empty_conv filter_id_conv dest: links_of_event_parent)

lemma gather_filter_parent:
  "distinct es \<Longrightarrow>
     filter (\<lambda>pl. parent pl = x) (gatherExistingLinks child (Some es) h) =
       (if x \<in> set es then links_of_event child x (data (h x)) else [])"
  by (induction es) (auto simp: gatherExistingLinks_def links_of_event_filter_parent)

lemma build_desired_for_parent:
  assumes "build_desired l no_desired = Inr d"
  shows "e \<in> set (desired_next d) \<longleftrightarrow>
           (\<exists>pl\<in>set (filter (\<lambda>pl. parent pl = e) l). link_type pl = Next)"
    and "desired_switch d e =
           map (\<lambda>pl. the (detail pl))
             (filter (\<lambda>pl. link_type pl = SwitchCase) (filter (\<lambda>pl. parent pl = e) l))"
    and "desired_fork_count d e =
           length (filter (\<lambda>pl. link_type pl = ForkBranch) (filter (\<lambda>pl. parent pl = e) l))"
proof -
  show "e \<in> set (desired_next d) \<longleftrightarrow>
           (\<exists>pl\<in>set (filter (\<lambda>pl. parent pl = e) l). link_type pl = Next)"
    using build_desired_next[OF assms] by auto
  have "(\<lambda>pl. link_type pl = SwitchCase \<and> parent pl = e) = (\<lambda>pl. parent pl = e \<and> link_type pl = SwitchCase)"
    by auto
  then show "desired_switch d e =
           map (\<lambda>pl. the (detail pl))
             (filter (\<lambda>pl. link_type pl = SwitchCase) (filter (\<lambda>pl. parent pl = e) l))"
    using build_desired_switch[OF assms, of e] by simp
  have "(\<lambda>pl. link_type pl = ForkBranch \<and> parent pl = e) = (\<lambda>pl. parent pl = e \<and> link_type pl = ForkBranch)"
    by auto
  then show "desired_fork_count d e =
           length (filter (\<lambda>pl. link_type pl = ForkBranch) (filter (\<lambda>pl. parent pl = e) l))"
    using build_desired_fork_count[OF assms, of e] by simp
qed

lemma apply_events_fixed:
  "\<forall>e\<in>set es. apply_event env child d e (data (h e)) = (Inr (), data (h e)) \<Longrightarrow>
     apply_events env child d es h = (Inr (), h)"
  by (induction es) auto

lemma links_of_event_switch_keys:
  "switch_keys (links_of_event child e (SwitchEvent cases)) =
     map (\<lambda>(v, c). (e, Some v)) (filter (\<lambda>(v, c). c = child) cases)"
  by (induction cases) (auto simp: switch_keys_def)

lemma switch_keys_links_of_event:
  "k \<in> set (switch_keys (links_of_event child e dat)) \<Longrightarrow> fst k = e"
  by (cases dat) (auto simp: switch_keys_def split: if_splits)

lemma switch_keys_links_distinct:
  assumes "\<forall>cases. dat = SwitchEvent cases \<longrightarrow> distinct (map fst cases)"
  shows "distinct (switch_keys (links_of_event child e dat))"
proof (cases dat)
  case (SwitchEvent cases)
  with assms have "distinct (map fst (filter (\<lambda>(v, c). c = child) cases))"
    by (simp add: distinct_map_filter)
  then have "distinct (map (\<lambda>(v, c). (e, Some v)) (filter (\<lambda>(v, c). c = child) cases))"
    by (simp add: distinct_map inj_on_def split_beta)
  with SwitchEvent show ?thesis by (simp only: links_of_event_switch_keys)
qed (auto simp: switch_keys_def)

lemma switch_keys_append: "switch_keys (xs @ ys) = switch_keys xs @ switch_keys ys"
  by (simp add: switch_keys_def)

lemma switch_keys_Nil: "switch_keys [] = []"
  by (simp add: switch_keys_def)

lemma switch_keys_gather_fst:
  "k \<in> set (switch_keys (gatherExistingLinks child (Some es) h)) \<Longrightarrow> fst k \<in> set es"
  by (induction es)
    (auto simp: gatherExistingLinks_def switch_keys_append switch_keys_Nil
       dest: switch_keys_links_of_event)

lemma isValid_gather:
  assumes "distinct es" and "dict_ok h"
  shows "isValid (gatherExistingLinks child (Some es) h)"
  unfolding isValid_iff using assms(1)
proof (induction es)
  case Nil
  then show ?case by (simp add: gatherExistingLinks_def switch_keys_def)
next
  case (Cons e es)
  have split: "gatherExistingLinks child (Some (e # es)) h =
      links_of_event child e (data (h e)) @ gatherExistingLinks child (Some es) h"
    by (simp add: gatherExistingLinks_def)
  have "distinct (switch_keys (links_of_event child e (data (h e))))"
    using assms(2) by (intro switch_keys_links_distinct) (simp add: dict_ok_def)
  moreover have "distinct (switch_keys (gatherExistingLinks child (Some es) h))"
    using Cons by simp
  moreover have "set (switch_keys (links_of_event child e (data (h e)))) \<inter>
      set (switch_keys (gatherExistingLinks child (Some es) h)) = {}"
    using Cons.prems
    by (auto dest!: switch_keys_links_of_event switch_keys_gather_fst)
  ultimately show ?case by (simp add: split switch_keys_append)
qed

lemma gather_switch_detail:
  "pl \<in> set (gatherExistingLinks child flow h) \<Longrightarrow> link_type pl = SwitchCase \<Longrightarrow> detail pl \<noteq> None"
proof -
  have "pl \<in> set (links_of_event child e dat) \<Longrightarrow> link_type pl = SwitchCase \<Longrightarrow> detail pl \<noteq> None"
    for e dat
    by (cases dat) (auto split: if_splits)
  then show "pl \<in> set (gatherExistingLinks child flow h) \<Longrightarrow> link_type pl = SwitchCase \<Longrightarrow> detail pl \<noteq> None"
    by (auto simp: gatherExistingLinks_def split: option.splits)
qed

lemma apply_event_rescanned:
  assumes ord: "set_order_ok env"
    and keys: "\<forall>cases. dat = SwitchEvent cases \<longrightarrow> distinct (map fst cases)"
    and nxt: "e \<in> set (desired_next d) \<longleftrightarrow> (\<exists>pl\<in>set (links_of_event child e dat). link_type pl = Next)"
    and sw: "desired_switch d e =
        map (\<lambda>pl. the (detail pl)) (filter (\<lambda>pl. link_type pl = SwitchCase) (links_of_event child e dat))"
    and fk: "desired_fork_count d e =
        length (filter (\<lambda>pl. link_type pl = ForkBranch) (links_of_event child e dat))"
  shows "apply_event env child d e dat = (Inr (), dat)"
proof (cases dat)
  case (Sequential k n)
  with nxt show ?thesis by (auto simp: apply_event_def split: if_splits)
next
  case (SwitchEvent cases)
  let ?des = "desired_switch d e"
  have des: "?des = map fst (filter (\<lambda>(v, c). c = child) cases)"
    unfolding sw SwitchEvent by (induction cases) auto
  have dist: "distinct (map fst cases)" using keys SwitchEvent by simp
  have "\<forall>(v, t)\<in>set cases. t = child \<longrightarrow> v \<in> set ?des"
    unfolding des by force
  then have rm: "remove_cases child ?des (map fst cases) cases = cases"
    by (rule remove_cases_none)
  have it: "set (set_order_ints env ?des) = set ?des" "distinct (set_order_ints env ?des)"
    using ord by (simp_all add: set_order_ok_def)
  have bound: "map_of cases v = Some child" if "v \<in> set ?des" for v
    using that dist unfolding des by (auto intro: map_of_is_SomeI)
  then have "\<forall>v\<in>set (set_order_ints env ?des). map_of cases v = None \<or> map_of cases v = Some child"
    using it(1) by simp
  from add_cases_ok[OF it(2) this]
  have "add_cases child (set_order_ints env ?des) cases =
      (None, cases @ map (\<lambda>v. (v, child)) (filter (\<lambda>v. map_of cases v = None) (set_order_ints env ?des)))" .
  moreover have "filter (\<lambda>v. map_of cases v = None) (set_order_ints env ?des) = []"
    using bound it(1) by (simp add: filter_empty_conv)
  ultimately have "add_cases child (set_order_ints env ?des) cases = (None, cases)" by simp
  with rm SwitchEvent show ?thesis by (simp add: apply_event_def)
next
  case (ForkEvent forks)
  with fk show ?thesis by (simp add: apply_event_def)
next
  case OtherData
  then show ?thesis by (simp add: apply_event_def)
qed

lemma applyChanges_rescanned:
  assumes "set_order_ok env" and "distinct events" and "dict_ok h"
  shows "applyChanges env child (gatherExistingLinks child (Some events) h) (Some events) h = (Inr (), h)"
proof -
  let ?l = "gatherExistingLinks child (Some events) h"
  have valid: "isValid ?l" by (rule isValid_gather[OF assms(2,3)])
  have "\<forall>pl\<in>set ?l. link_type pl = SwitchCase \<longrightarrow> detail pl \<noteq> None"
    using gather_switch_detail by blast
  from build_desired_total[OF this] obtain d where d: "build_desired ?l no_desired = Inr d"
    by blast
  have mine: "filter (\<lambda>pl. parent pl = e) ?l = links_of_event child e (data (h e))"
    if "e \<in> set events" for e
    using gather_filter_parent[OF assms(2), of e child h] that by simp
  have "to_overwrite child h (set_order_events env (desired_next d)) = []"
  proof -
    have "\<not> (case data (h p) of Sequential k nxt \<Rightarrow> nxt \<noteq> None \<and> nxt \<noteq> Some child | _ \<Rightarrow> False)"
      if "p \<in> set (desired_next d)" for p
    proof -
      from that build_desired_next[OF d] obtain pl where "pl \<in> set ?l" "parent pl = p" "link_type pl = Next"
        by auto
      then obtain e where "e \<in> set events" "pl \<in> set (links_of_event child e (data (h e)))"
        by (auto simp: gatherExistingLinks_def)
      moreover from this(2) \<open>parent pl = p\<close> have "e = p" by (auto dest: links_of_event_parent)
      ultimately show ?thesis using \<open>link_type pl = Next\<close>
        by (cases "data (h p)") (auto split: if_splits)
    qed
    moreover have "set (set_order_events env (desired_next d)) = set (desired_next d)"
      using assms(1) by (simp add: set_order_ok_def)
    ultimately show ?thesis by (simp add: to_overwrite_def filter_empty_conv)
  qed
  moreover have "apply_events env child d events h = (Inr (), h)"
  proof (rule apply_events_fixed, rule ballI)
    fix e assume e: "e \<in> set events"
    show "apply_event env child d e (data (h e)) = (Inr (), data (h e))"
    proof (rule apply_event_rescanned[OF assms(1)])
      show "\<forall>cases. data (h e) = SwitchEvent cases \<longrightarrow> distinct (map fst cases)"
        using assms(3) by (simp add: dict_ok_def)
    qed (use build_desired_for_parent[OF d, of e] mine[OF e] in simp_all)
  qed
  ultimately show ?thesis using valid d by (simp add: applyChanges_def)
qed

lemma apply_event_keys:
  assumes "\<forall>cases. dat = SwitchEvent cases \<longrightarrow> distinct (map fst cases)"
  shows "\<forall>cases. snd (apply_event env child d e dat) = SwitchEvent cases \<longrightarrow> distinct (map fst cases)"
proof (cases dat)
  case (SwitchEvent cs)
  with assms have dist: "distinct (map fst cs)" by simp
  have "distinct (map fst (remove_cases child (desired_switch d e) (map fst cs) cs))"
    unfolding remove_cases_filter[OF dist] using dist by (rule distinct_map_filter)
  then show ?thesis unfolding SwitchEvent apply_event_switch_snd
    by (simp add: add_cases_distinct)
qed (auto simp: apply_event_def Let_def)

lemma applyChanges_dict_ok:
  assumes "dict_ok h" and "applyChanges env child l flow h = (r, h')"
  shows "dict_ok h'"
  using assms(2)
proof (cases rule: applyChanges_cases)
  case untouched
  with assms(1) show ?thesis by simp
next
  case (loop events d)
  have "\<forall>cases. data (snd (apply_events env child d events h) e) = SwitchEvent cases \<longrightarrow>
      distinct (map fst cases)" for e
    by (rule apply_events_preserves[where Q = "\<lambda>dat. \<forall>cases. dat = SwitchEvent cases \<longrightarrow>
          distinct (map fst cases)"])
      (use assms(1) apply_event_keys in \<open>auto simp: dict_ok_def\<close>)
  with loop(4) show ?thesis by (simp add: dict_ok_def)
qed

text \<open>
  C8. Idempotence. In a flowchart whose event list holds each event once and whose switch
  dictionaries have distinct keys, after a successful apply the list rebuilt by the scan of
  the mutated graph, applied to that graph, succeeds and returns the same store: the second
  apply mutates nothing.
\<close>

theorem apply_idempotent:
  assumes "set_order_ok env" and "distinct events" and "dict_ok h"
    and "applyChanges env child l (Some events) h = (Inr (), h1)"
  shows "applyChanges env child (gatherExistingLinks child (Some events) h1) (Some events) h1 =
           (Inr (), h1)"
  by (rule applyChanges_rescanned[OF assms(1,2) applyChanges_dict_ok[OF assms(3,4)]])

theorem apply_idempotent_witness:
  "set_order_ok (ex_env True) \<and> distinct ex_events \<and> dict_ok ex_heap \<and>
   fst (applyChanges (ex_env True) 0
     [ParentLink 1 Next None, ParentLink 2 SwitchCase (Some 7), ParentLink 3 ForkBranch None]
     (Some ex_events) ex_heap) = Inr () \<and>
   gatherExistingLinks 0 (Some ex_events)
     (snd (applyChanges (ex_env True) 0
       [ParentLink 1 Next None, ParentLink 2 SwitchCase (Some 7), ParentLink 3 ForkBranch None]
       (Some ex_events) ex_heap)) =
     [ParentLink 1 Next None, ParentLink 2 SwitchCase (Some 7), ParentLink 3 ForkBranch None] \<and>
   applyChanges (ex_env True) 0
     (gatherExistingLinks 0 (Some ex_events)
       (snd (applyChanges (ex_env True) 0
         [ParentLink 1 Next None, ParentLink 2 SwitchCase (Some 7), ParentLink 3 ForkBranch None]
         (Some ex_events) ex_heap)))
     (Some ex_events)
     (snd (applyChanges (ex_env True) 0
       [ParentLink 1 Next None, ParentLink 2 SwitchCase (Some 7), ParentLink 3 ForkBranch None]
       (Some ex_events) ex_heap)) =
     (Inr (),
      snd (applyChanges (ex_env True) 0
        [ParentLink 1 Next None, ParentLink 2 SwitchCase (Some 7), ParentLink 3 ForkBranch None]
        (Some ex_events) ex_heap))"
proof -
  let ?l = "[ParentLink 1 Next None, ParentLink 2 SwitchCase (Some 7), ParentLink 3 ForkBranch None]"
  let ?r = "applyChanges (ex_env True) 0 ?l (Some ex_events) ex_heap"
  have ok: "fst ?r = Inr ()" by (simp add: ex_simps)
  then have run: "?r = (Inr (), snd ?r)" by (simp add: prod_eq_iff)
  have dist: "distinct ex_events" by (simp add: ex_events_def)
  have scan: "gatherExistingLinks 0 (Some ex_events) (snd ?r) = ?l"
    by (simp add: gatherExistingLinks_def ex_simps)
  from apply_idempotent[OF set_order_ok_ex dist dict_ok_ex run] ok dist scan
  show ?thesis by (simp only: set_order_ok_ex dict_ok_ex simp_thms)
qed

section \<open>The parents of the child after an apply\<close>

lemma count_list_distinct:
  "distinct xs \<Longrightarrow> count_list xs x = (if x \<in> set xs then 1 else 0)"
  by (induction xs) auto

lemma count_list_filter:
  "count_list (filter P xs) x = (if P x then count_list xs x else 0)"
  by (induction xs) auto

lemma apply_events_distinct:
  assumes "distinct es"
    and "\<forall>e\<in>set es. fst (apply_event env child d e (data (h e))) = Inr ()"
  shows "\<exists>h'. apply_events env child d es h = (Inr (), h') \<and>
           (\<forall>x. data (h' x) =
              (if x \<in> set es then snd (apply_event env child d x (data (h x))) else data (h x)))"
  using assms
proof (induction es arbitrary: h)
  case Nil
  then show ?case by simp
next
  case (Cons e es)
  obtain dat' where step: "apply_event env child d e (data (h e)) = (Inr (), dat')"
    using Cons.prems(2) by (cases "apply_event env child d e (data (h e))") auto
  let ?h = "h(e := (h e)\<lparr>data := dat'\<rparr>)"
  have same: "?h x = h x" if "x \<in> set es" for x
    using that Cons.prems(1) by auto
  have pre: "\<forall>x\<in>set es. fst (apply_event env child d x (data (?h x))) = Inr ()"
    using Cons.prems(2) same by simp
  have "distinct es" using Cons.prems(1) by simp
  from Cons.IH[OF this pre] obtain h' where
    run: "apply_events env child d es ?h = (Inr (), h')" and
    dat: "\<forall>x. data (h' x) =
      (if x \<in> set es then snd (apply_event env child d x (data (?h x))) else data (?h x))"
    by blast
  have "apply_events env child d (e # es) h = (Inr (), h')"
    using step run by simp
  moreover have "data (h' x) =
      (if x \<in> set (e # es) then snd (apply_event env child d x (data (h x))) else data (h x))" for x
  proof (cases "x \<in> set es")
    case True
    with dat same show ?thesis by simp
  next
    case False
    with dat have "data (h' x) = data (?h x)" by simp
    with step False show ?thesis by simp
  qed
  ultimately show ?case by blast
qed

text \<open>What one turn of the main loop makes of the links that the scan then finds.\<close>

lemma rescan_sequential:
  assumes "\<forall>pl\<in>set le. parent pl = e \<and> fits (Sequential k n) (link_type pl) (detail pl)"
    and "e \<in> set (desired_next d) \<longleftrightarrow> (\<exists>pl\<in>set le. link_type pl = Next)"
    and "apply_event env child d e (Sequential k n) = (r, dat')"
  shows "r = Inr () \<and> distinct (links_of_event child e dat') \<and>
         set (links_of_event child e dat') = set le \<and>
         (\<forall>pl\<in>set le. link_type pl \<noteq> ForkBranch)"
proof -
  have "pl = ParentLink e Next None" if "pl \<in> set le" for pl
  proof -
    from assms(1) that have "parent pl = e" "fits (Sequential k n) (link_type pl) (detail pl)"
      by auto
    then show ?thesis by (cases pl; cases "link_type pl"; cases "detail pl") auto
  qed
  then have all: "\<forall>pl\<in>set le. pl = ParentLink e Next None" by blast
  then have mem: "e \<in> set (desired_next d) \<longleftrightarrow> le \<noteq> []"
    using assms(2) by (cases le) auto
  have set_le: "set le = (if le = [] then {} else {ParentLink e Next None})"
    using all by (cases le) auto
  from assms(3) mem have "r = Inr ()"
    and "links_of_event child e dat' = (if le = [] then [] else [ParentLink e Next None])"
    by (auto simp: apply_event_def split: if_splits)
  with set_le all show ?thesis by auto
qed

lemma rescan_fork:
  assumes "\<forall>pl\<in>set le. parent pl = e \<and> fits (ForkEvent forks) (link_type pl) (detail pl)"
    and "desired_fork_count d e = length (filter (\<lambda>pl. link_type pl = ForkBranch) le)"
    and "apply_event env child d e (ForkEvent forks) = (r, dat')"
  shows "r = Inr () \<and> links_of_event child e dat' = le"
proof -
  have "pl = ParentLink e ForkBranch None" if "pl \<in> set le" for pl
  proof -
    from assms(1) that have "parent pl = e" "fits (ForkEvent forks) (link_type pl) (detail pl)"
      by auto
    then show ?thesis by (cases pl; cases "link_type pl"; cases "detail pl") auto
  qed
  then have all: "\<forall>pl\<in>set le. pl = ParentLink e ForkBranch None" by blast
  then have le: "le = replicate (length le) (ParentLink e ForkBranch None)"
    by (simp add: replicate_length_same)
  have "filter (\<lambda>pl. link_type pl = ForkBranch) le = le"
    using all by (auto simp: filter_id_conv)
  with assms(2) have des: "desired_fork_count d e = length le" by simp
  from assms(3) obtain forks' where r: "r = Inr ()" and dat': "dat' = ForkEvent forks'"
    and cnt: "length (filter (\<lambda>fork. fork = child) forks') = length le"
    unfolding des[symmetric]
    by (auto simp: apply_event_def Let_def keep_forks_count split: if_splits)
  have "links_of_event child e dat' =
      replicate (length (filter (\<lambda>fork. fork = child) forks')) (ParentLink e ForkBranch None)"
    unfolding dat' by (simp add: map_replicate_const)
  with cnt le r show ?thesis by simp
qed

lemma links_of_switch_distinct:
  assumes "distinct (map fst cs)"
  shows "distinct (links_of_event child e (SwitchEvent cs))"
proof -
  have "distinct (map fst (filter (\<lambda>(v, c). c = child) cs))"
    using assms by (rule distinct_map_filter)
  then show ?thesis by (simp add: distinct_map inj_on_def split_beta)
qed

lemma rescan_switch:
  assumes ord: "set_order_ok env"
    and dist: "distinct (map fst cases)"
    and fit: "\<forall>pl\<in>set le. parent pl = e \<and> fits (SwitchEvent cases) (link_type pl) (detail pl)"
    and free: "\<forall>pl\<in>set le. \<forall>v. detail pl = Some v \<longrightarrow>
                 map_of cases v = None \<or> map_of cases v = Some child"
    and sw: "desired_switch d e =
               map (\<lambda>pl. the (detail pl)) (filter (\<lambda>pl. link_type pl = SwitchCase) le)"
    and step: "apply_event env child d e (SwitchEvent cases) = (r, dat')"
  shows "r = Inr () \<and> distinct (links_of_event child e dat') \<and>
         set (links_of_event child e dat') = set le \<and>
         (\<forall>pl\<in>set le. link_type pl \<noteq> ForkBranch)"
proof -
  let ?des = "desired_switch d e"
  let ?vs = "set_order_ints env ?des"
  let ?cases1 = "remove_cases child ?des (map fst cases) cases"
  have "\<exists>v. pl = ParentLink e SwitchCase (Some v)" if "pl \<in> set le" for pl
  proof -
    from fit that have "parent pl = e" "fits (SwitchEvent cases) (link_type pl) (detail pl)"
      by auto
    then show ?thesis by (cases pl; cases "link_type pl"; cases "detail pl") auto
  qed
  then have all: "\<forall>pl\<in>set le. \<exists>v. pl = ParentLink e SwitchCase (Some v)" by blast
  have des: "v \<in> set ?des \<longleftrightarrow> ParentLink e SwitchCase (Some v) \<in> set le" for v
  proof
    assume "v \<in> set ?des"
    then obtain pl where "pl \<in> set le" "v = the (detail pl)" unfolding sw by auto
    with all show "ParentLink e SwitchCase (Some v) \<in> set le" by force
  next
    assume "ParentLink e SwitchCase (Some v) \<in> set le"
    then show "v \<in> set ?des" unfolding sw by force
  qed
  have vs: "set ?vs = set ?des" "distinct ?vs"
    using ord by (simp_all add: set_order_ok_def)
  have cases1: "?cases1 = filter (\<lambda>(v, t). \<not> (t = child \<and> v \<notin> set ?des)) cases"
    by (rule remove_cases_filter[OF dist])
  have dist1: "distinct (map fst ?cases1)"
    unfolding cases1 using dist by (rule distinct_map_filter)
  have bound: "t = child" if "v \<in> set ?des" "map_of ?cases1 v = Some t" for v t
  proof -
    from that(2) have "(v, t) \<in> set cases" unfolding cases1 by (auto dest: map_of_SomeD)
    with dist have "map_of cases v = Some t" by (rule map_of_is_SomeI)
    moreover from that(1) have "ParentLink e SwitchCase (Some v) \<in> set le" by (simp add: des)
    ultimately show ?thesis using free by force
  qed
  then have "\<forall>v\<in>set ?vs. map_of ?cases1 v = None \<or> map_of ?cases1 v = Some child"
    unfolding vs(1) by (metis option.exhaust)
  from add_cases_ok[OF vs(2) this]
  have add: "add_cases child ?vs ?cases1 =
      (None, ?cases1 @ map (\<lambda>v. (v, child)) (filter (\<lambda>v. map_of ?cases1 v = None) ?vs))" .
  let ?cases2 = "?cases1 @ map (\<lambda>v. (v, child)) (filter (\<lambda>v. map_of ?cases1 v = None) ?vs)"
  from step add have r: "r = Inr ()" and dat': "dat' = SwitchEvent ?cases2"
    by (auto simp: apply_event_def Let_def)
  have dist2: "distinct (map fst ?cases2)"
    using add_cases_distinct[OF dist1, of child ?vs] add by simp
  have links: "links_of_event child e dat' =
      map (\<lambda>(v, c). ParentLink e SwitchCase (Some v)) (filter (\<lambda>(v, c). c = child) ?cases2)"
    unfolding dat' by simp
  have d_links: "distinct (links_of_event child e dat')"
    unfolding dat' using dist2 by (rule links_of_switch_distinct)
  have in2: "(v, child) \<in> set ?cases2 \<longleftrightarrow> v \<in> set ?des" for v
  proof
    assume "(v, child) \<in> set ?cases2"
    then have "(v, child) \<in> set ?cases1 \<or> v \<in> set ?vs" by auto
    then show "v \<in> set ?des" unfolding cases1 vs(1) by auto
  next
    assume v: "v \<in> set ?des"
    show "(v, child) \<in> set ?cases2"
    proof (cases "map_of ?cases1 v")
      case None
      with v vs(1) show ?thesis by simp
    next
      case (Some t)
      with bound[OF v] have "map_of ?cases1 v = Some child" by simp
      then have "(v, child) \<in> set ?cases1" by (rule map_of_SomeD)
      then show ?thesis by simp
    qed
  qed
  have "set (links_of_event child e dat') = {ParentLink e SwitchCase (Some v) |v. (v, child) \<in> set ?cases2}"
    unfolding links by force
  also have "\<dots> = {ParentLink e SwitchCase (Some v) |v. v \<in> set ?des}"
    by (simp only: in2)
  also have "\<dots> = set le"
  proof (intro set_eqI iffI)
    fix pl assume "pl \<in> {ParentLink e SwitchCase (Some v) |v. v \<in> set ?des}"
    then obtain v where "pl = ParentLink e SwitchCase (Some v)" "v \<in> set ?des" by blast
    then show "pl \<in> set le" by (simp add: des)
  next
    fix pl assume pl: "pl \<in> set le"
    with all obtain v where v: "pl = ParentLink e SwitchCase (Some v)" by blast
    with pl have "v \<in> set ?des" by (simp add: des)
    with v show "pl \<in> {ParentLink e SwitchCase (Some v) |v. v \<in> set ?des}" by blast
  qed
  finally have "set (links_of_event child e dat') = set le" .
  moreover have "\<forall>pl\<in>set le. link_type pl \<noteq> ForkBranch"
  proof
    fix pl assume "pl \<in> set le"
    with all obtain v where "pl = ParentLink e SwitchCase (Some v)" by blast
    then show "link_type pl \<noteq> ForkBranch" by simp
  qed
  ultimately show ?thesis using r d_links by simp
qed

lemma rescan_other:
  assumes "\<forall>pl\<in>set le. parent pl = e \<and> fits OtherData (link_type pl) (detail pl)"
    and "apply_event env child d e OtherData = (r, dat')"
  shows "r = Inr () \<and> links_of_event child e dat' = le"
proof -
  from assms(1) have "le = []" by (cases le) auto
  with assms(2) show ?thesis by (auto simp: apply_event_def)
qed

text \<open>The four payload kinds together, as a count of each link in the rescan of an event.\<close>

lemma rescan_event:
  assumes ord: "set_order_ok env"
    and keys: "\<forall>cases. dat = SwitchEvent cases \<longrightarrow> distinct (map fst cases)"
    and fit: "\<forall>pl\<in>set le. parent pl = e \<and> fits dat (link_type pl) (detail pl)"
    and free: "\<forall>pl\<in>set le. \<forall>cases v. dat = SwitchEvent cases \<and> detail pl = Some v \<longrightarrow>
                 map_of cases v = None \<or> map_of cases v = Some child"
    and nxt: "e \<in> set (desired_next d) \<longleftrightarrow> (\<exists>pl\<in>set le. link_type pl = Next)"
    and sw: "desired_switch d e =
               map (\<lambda>pl. the (detail pl)) (filter (\<lambda>pl. link_type pl = SwitchCase) le)"
    and fk: "desired_fork_count d e = length (filter (\<lambda>pl. link_type pl = ForkBranch) le)"
  shows "fst (apply_event env child d e dat) = Inr () \<and>
         (\<forall>pl. count_list (links_of_event child e (snd (apply_event env child d e dat))) pl =
            (if link_type pl = ForkBranch then count_list le pl
             else if pl \<in> set le then 1 else 0))"
proof -
  obtain r dat' where step: "apply_event env child d e dat = (r, dat')"
    by (cases "apply_event env child d e dat")
  have set_like: "r = Inr () \<and> (\<forall>pl. count_list (links_of_event child e dat') pl =
            (if link_type pl = ForkBranch then count_list le pl
             else if pl \<in> set le then 1 else 0))"
    if "r = Inr () \<and> distinct (links_of_event child e dat') \<and>
        set (links_of_event child e dat') = set le \<and> (\<forall>pl\<in>set le. link_type pl \<noteq> ForkBranch)"
  proof -
    have "count_list (links_of_event child e dat') pl =
        (if link_type pl = ForkBranch then count_list le pl else if pl \<in> set le then 1 else 0)" for pl
    proof (cases "link_type pl = ForkBranch")
      case True
      with that have "pl \<notin> set le" "pl \<notin> set (links_of_event child e dat')" by auto
      with True show ?thesis by simp
    next
      case False
      with that show ?thesis by (simp add: count_list_distinct)
    qed
    with that show ?thesis by simp
  qed
  have same: "r = Inr () \<and> (\<forall>pl. count_list (links_of_event child e dat') pl =
            (if link_type pl = ForkBranch then count_list le pl
             else if pl \<in> set le then 1 else 0))"
    if "r = Inr () \<and> links_of_event child e dat' = le"
       "\<forall>pl\<in>set le. link_type pl = ForkBranch"
  proof -
    have "count_list le pl = (if pl \<in> set le then 1 else 0)" if "link_type pl \<noteq> ForkBranch" for pl
      using that \<open>\<forall>pl\<in>set le. link_type pl = ForkBranch\<close> by auto
    with that(1) show ?thesis by auto
  qed
  have "r = Inr () \<and> (\<forall>pl. count_list (links_of_event child e dat') pl =
            (if link_type pl = ForkBranch then count_list le pl
             else if pl \<in> set le then 1 else 0))"
  proof (cases dat)
    case (Sequential k n)
    show ?thesis
      by (rule set_like, rule rescan_sequential[where k = k and n = n])
        (use Sequential fit nxt step in simp_all)
  next
    case (SwitchEvent cases)
    show ?thesis
    proof (rule set_like, rule rescan_switch[OF ord, where cases = cases])
      show "distinct (map fst cases)" using keys SwitchEvent by simp
      show "\<forall>pl\<in>set le. \<forall>v. detail pl = Some v \<longrightarrow>
          map_of cases v = None \<or> map_of cases v = Some child"
        using free SwitchEvent by simp
    qed (use SwitchEvent fit sw step in simp_all)
  next
    case (ForkEvent forks)
    have "\<forall>pl\<in>set le. link_type pl = ForkBranch"
    proof
      fix pl assume "pl \<in> set le"
      with fit ForkEvent have "fits (ForkEvent forks) (link_type pl) (detail pl)" by simp
      then show "link_type pl = ForkBranch" by (cases "link_type pl"; cases "detail pl") auto
    qed
    moreover have "r = Inr () \<and> links_of_event child e dat' = le"
      by (rule rescan_fork[where forks = forks]) (use ForkEvent fit fk step in simp_all)
    ultimately show ?thesis by (intro same)
  next
    case OtherData
    have "r = Inr () \<and> links_of_event child e dat' = le"
      by (rule rescan_other) (use OtherData fit step in simp_all)
    moreover from this fit OtherData have "\<forall>pl\<in>set le. link_type pl = ForkBranch"
      by (cases le) auto
    ultimately show ?thesis by (intro same)
  qed
  with step show ?thesis by simp
qed

text \<open>
  C1 as stated fails: a list without duplicate switch cases and without a self-parent entry
  need not be applied with success. In the example flowchart the list that asks for case 3
  of switch 2, which is bound to event 5, fails with the conflict; and the list that asks
  for the Next link of action 1, whose \<^verbatim>\<open>next\<close> is event 5, fails when the user answers No.
\<close>

theorem apply_fails_counterexample:
  "isValid [ParentLink 2 SwitchCase (Some 3)] \<and>
   parent (ParentLink 2 SwitchCase (Some 3)) \<noteq> 0 \<and>
   fst (applyChanges (ex_env True) 0 [ParentLink 2 SwitchCase (Some 3)] (Some ex_events) ex_heap)
     = Inl (ConflictError 2 3) \<and>
   isValid [ParentLink 1 Next None] \<and>
   parent (ParentLink 1 Next None) \<noteq> 0 \<and>
   fst (applyChanges (ex_env False) 0 [ParentLink 1 Next None] (Some ex_events) ex_heap)
     = Inl OverwriteDeclined"
  by (simp add: ex_simps)

text \<open>
  C1, amended. Take a flowchart whose event list holds each event once and whose switch
  dictionaries have distinct keys, and a desired list that has no duplicate switch case,
  is well typed (every link names an event of the flowchart and fits its payload), asks
  for no switch case that is bound to another event, and for which the overwrite question
  is either not needed or answered Yes. Then the apply succeeds, and the scan of the graph
  afterwards finds exactly the desired links: every desired Next link and every desired
  switch case once, nothing else, and each ForkBranch link as many times as the desired
  list holds it.
\<close>

theorem rescan_after_apply:
  assumes ord: "set_order_ok env" and dist: "distinct events" and keys: "dict_ok h"
    and valid: "isValid l" and typed: "well_typed events h l" and free: "conflict_free child h l"
    and yes: "overwrite_question env child l h = [] \<or> confirm env (overwrite_question env child l h)"
  shows "\<exists>h'. applyChanges env child l (Some events) h = (Inr (), h') \<and>
           (\<forall>pl. count_list (gatherExistingLinks child (Some events) h') pl =
              (if link_type pl = ForkBranch then count_list l pl
               else if pl \<in> set l then 1 else 0))"
proof -
  have "detail pl \<noteq> None" if "pl \<in> set l" "link_type pl = SwitchCase" for pl
  proof -
    from typed that(1) have "fits (data (h (parent pl))) (link_type pl) (detail pl)"
      by (simp add: well_typed_def)
    with that(2) show ?thesis by (cases "data (h (parent pl))"; cases "detail pl") auto
  qed
  then have "\<forall>pl\<in>set l. link_type pl = SwitchCase \<longrightarrow> detail pl \<noteq> None" by blast
  from build_desired_total[OF this] obtain d where d: "build_desired l no_desired = Inr d"
    by blast
  have "desired_next d = map parent (filter (\<lambda>pl. link_type pl = Next) l)"
    using build_desired_Inr[OF d] by (simp add: no_desired_def)
  then have ask: "to_overwrite child h (set_order_events env (desired_next d)) =
      overwrite_question env child l h"
    by (simp add: overwrite_question_def)
  have turn: "fst (apply_event env child d e (data (h e))) = Inr () \<and>
      (\<forall>pl. count_list (links_of_event child e (snd (apply_event env child d e (data (h e))))) pl =
         (if link_type pl = ForkBranch then count_list (filter (\<lambda>pl. parent pl = e) l) pl
          else if pl \<in> set (filter (\<lambda>pl. parent pl = e) l) then 1 else 0))" for e
  proof (rule rescan_event[OF ord])
    show "\<forall>cases. data (h e) = SwitchEvent cases \<longrightarrow> distinct (map fst cases)"
      using keys by (simp add: dict_ok_def)
    show "\<forall>pl\<in>set (filter (\<lambda>pl. parent pl = e) l).
        parent pl = e \<and> fits (data (h e)) (link_type pl) (detail pl)"
      using typed by (auto simp: well_typed_def)
    show "\<forall>pl\<in>set (filter (\<lambda>pl. parent pl = e) l). \<forall>cases v.
        data (h e) = SwitchEvent cases \<and> detail pl = Some v \<longrightarrow>
          map_of cases v = None \<or> map_of cases v = Some child"
    proof (intro ballI allI impI)
      fix pl cases v
      assume pl: "pl \<in> set (filter (\<lambda>pl. parent pl = e) l)"
        and sw: "data (h e) = SwitchEvent cases \<and> detail pl = Some v"
      from pl typed have "fits (data (h e)) (link_type pl) (detail pl)"
        by (auto simp: well_typed_def)
      with sw have "link_type pl = SwitchCase" by (cases "link_type pl") auto
      with pl sw free show "map_of cases v = None \<or> map_of cases v = Some child"
        by (auto simp: conflict_free_def)
    qed
  qed (rule build_desired_for_parent[OF d])+
  then have "\<forall>e\<in>set events. fst (apply_event env child d e (data (h e))) = Inr ()"
    by blast
  from apply_events_distinct[OF dist this] obtain h' where
    run: "apply_events env child d events h = (Inr (), h')" and
    dat: "\<forall>x. data (h' x) =
      (if x \<in> set events then snd (apply_event env child d x (data (h x))) else data (h x))"
    by blast
  have "applyChanges env child l (Some events) h = (Inr (), h')"
    using valid d ask yes run by (auto simp: applyChanges_def Let_def)
  moreover have "count_list (gatherExistingLinks child (Some events) h') pl =
      (if link_type pl = ForkBranch then count_list l pl else if pl \<in> set l then 1 else 0)" for pl
  proof -
    let ?p = "parent pl"
    have "count_list (gatherExistingLinks child (Some events) h') pl =
        count_list (filter (\<lambda>x. parent x = ?p) (gatherExistingLinks child (Some events) h')) pl"
      by (simp add: count_list_filter)
    also have "\<dots> = count_list (if ?p \<in> set events then links_of_event child ?p (data (h' ?p)) else []) pl"
      by (simp only: gather_filter_parent[OF dist])
    finally have scan: "count_list (gatherExistingLinks child (Some events) h') pl =
        count_list (if ?p \<in> set events then links_of_event child ?p (data (h' ?p)) else []) pl" .
    show ?thesis
    proof (cases "?p \<in> set events")
      case True
      with dat have "data (h' ?p) = snd (apply_event env child d ?p (data (h ?p)))" by simp
      with scan True turn[of ?p] show ?thesis by (simp add: count_list_filter)
    next
      case False
      with typed have "pl \<notin> set l" by (auto simp: well_typed_def)
      with scan False show ?thesis by simp
    qed
  qed
  ultimately show ?thesis by blast
qed

theorem rescan_after_apply_witness:
  "set_order_ok (ex_env True) \<and> distinct ex_events \<and> dict_ok ex_heap \<and>
   isValid [ParentLink 1 Next None, ParentLink 2 SwitchCase (Some 7),
            ParentLink 2 SwitchCase (Some 1), ParentLink 3 ForkBranch None,
            ParentLink 3 ForkBranch None, ParentLink 3 ForkBranch None] \<and>
   well_typed ex_events ex_heap
     [ParentLink 1 Next None, ParentLink 2 SwitchCase (Some 7),
      ParentLink 2 SwitchCase (Some 1), ParentLink 3 ForkBranch None,
      ParentLink 3 ForkBranch None, ParentLink 3 ForkBranch None] \<and>
   conflict_free 0 ex_heap
     [ParentLink 1 Next None, ParentLink 2 SwitchCase (Some 7),
      ParentLink 2 SwitchCase (Some 1), ParentLink 3 ForkBranch None,
      ParentLink 3 ForkBranch None, ParentLink 3 ForkBranch None] \<and>
   confirm (ex_env True)
     (overwrite_question (ex_env True) 0
       [ParentLink 1 Next None, ParentLink 2 SwitchCase (Some 7),
        ParentLink 2 SwitchCase (Some 1), ParentLink 3 ForkBranch None,
        ParentLink 3 ForkBranch None, ParentLink 3 ForkBranch None] ex_heap) \<and>
   gatherExistingLinks 0 (Some ex_events)
     (snd (applyChanges (ex_env True) 0
       [ParentLink 1 Next None, ParentLink 2 SwitchCase (Some 7),
        ParentLink 2 SwitchCase (Some 1), ParentLink 3 ForkBranch None,
        ParentLink 3 ForkBranch None, ParentLink 3 ForkBranch None] (Some ex_events) ex_heap)) =
     [ParentLink 1 Next None, ParentLink 2 SwitchCase (Some 1),
      ParentLink 2 SwitchCase (Some 7), ParentLink 3 ForkBranch None,
      ParentLink 3 ForkBranch None, ParentLink 3 ForkBranch None] \<and>
   (\<exists>h'. applyChanges (ex_env True) 0
       [ParentLink 1 Next None, ParentLink 2 SwitchCase (Some 7),
        ParentLink 2 SwitchCase (Some 1), ParentLink 3 ForkBranch None,
        ParentLink 3 ForkBranch None, ParentLink 3 ForkBranch None] (Some ex_events) ex_heap =
       (Inr (), h') \<and>
     (\<forall>pl. count_list (gatherExistingLinks 0 (Some ex_events) h') pl =
        (if link_type pl = ForkBranch
         then count_list
           [ParentLink 1 Next None, ParentLink 2 SwitchCase (Some 7),
            ParentLink 2 SwitchCase (Some 1), ParentLink 3 ForkBranch None,
            ParentLink 3 ForkBranch None, ParentLink 3 ForkBranch None] pl
         else if pl \<in> set
           [ParentLink 1 Next None, ParentLink 2 SwitchCase (Some 7),
            ParentLink 2 SwitchCase (Some 1), ParentLink 3 ForkBranch None,
            ParentLink 3 ForkBranch None, ParentLink 3 ForkBranch None] then 1 else 0)))"
proof -
  let ?l = "[ParentLink 1 Next None, ParentLink 2 SwitchCase (Some 7),
             ParentLink 2 SwitchCase (Some 1), ParentLink 3 ForkBranch None,
             ParentLink 3 ForkBranch None, ParentLink 3 ForkBranch None]"
  have dist: "distinct ex_events" by (simp add: ex_events_def)
  have valid: "isValid ?l" by (simp add: isValid_def)
  have typed: "well_typed ex_events ex_heap ?l"
    by (simp add: well_typed_def ex_events_def ex_heap_def)
  have free: "conflict_free 0 ex_heap ?l"
    by (simp add: conflict_free_def ex_heap_def)
  have yes: "confirm (ex_env True) (overwrite_question (ex_env True) 0 ?l ex_heap)"
    by (simp add: ex_env_def)
  then have yes': "overwrite_question (ex_env True) 0 ?l ex_heap = [] \<or>
      confirm (ex_env True) (overwrite_question (ex_env True) 0 ?l ex_heap)" by simp
  have scan: "gatherExistingLinks 0 (Some ex_events)
      (snd (applyChanges (ex_env True) 0 ?l (Some ex_events) ex_heap)) =
      [ParentLink 1 Next None, ParentLink 2 SwitchCase (Some 1),
       ParentLink 2 SwitchCase (Some 7), ParentLink 3 ForkBranch None,
       ParentLink 3 ForkBranch None, ParentLink 3 ForkBranch None]"
    by (simp add: gatherExistingLinks_def ex_simps)
  from rescan_after_apply[OF set_order_ok_ex dist dict_ok_ex valid typed free yes']
    dist valid typed free yes scan
  show ?thesis by (simp only: set_order_ok_ex dict_ok_ex simp_thms)
qed

end
